theory Spec2Isabelle
  imports Complex_Main "HOL-Library.Multiset"
begin

section \<open>Triphone encoder (src/src/utils.py)\<close>

text \<open>
  Python strings are modelled as \<open>string\<close> (a list of characters, one \<open>char\<close> per
  character of the Python string). \<open>slice s i j\<close> is the Python slice \<open>s[i:j]\<close> for
  \<open>0 \<le> i \<le> j\<close>: it is cut short at the end of the string and never raises.
\<close>

definition slice :: "'a list \<Rightarrow> nat \<Rightarrow> nat \<Rightarrow> 'a list" where
  "slice s i j = take (j - i) (drop i s)"

text \<open>The \<open>for i in range(len(newstring) - 2)\<close> loop of \<open>generate_triphones\<close>,
  appending one triphone per index.\<close>

fun triphone_loop :: "string \<Rightarrow> nat list \<Rightarrow> string list \<Rightarrow> string list" where
  "triphone_loop newstring [] triphones = triphones"
| "triphone_loop newstring (i # rest) triphones =
     triphone_loop newstring rest (triphones @ [slice newstring i (i + 3)])"

definition generate_triphones :: "string \<Rightarrow> string list" where
  "generate_triphones input_str =
     (let newstring = ''#'' @ input_str @ ''#'' in
      if length newstring \<le> 3 then [newstring]
      else triphone_loop newstring [0..<length newstring - 2] [])"

text \<open>\<open>process_cell\<close>: the cell handed over by \<open>build_lexeme_dict\<close> is always a list
  (the list of triphones), so the \<open>isinstance\<close> test succeeds.\<close>

definition process_cell :: "string list \<Rightarrow> string \<Rightarrow> string list" where
  "process_cell cell column_name = map (\<lambda>exponent. exponent @ ''-'' @ column_name) cell"


section \<open>Hierarchy analyser (src/src/hierarchy_analyser.py)\<close>

text \<open>
  A community is a Python set of lexemes. It is modelled as the list of its members in
  the set's iteration order (the order in which \<open>combinations\<close> sees them); such a list
  has no repeated member. A partition is a list of communities.
\<close>

type_synonym 'a community = "'a list"

fun find_set_containing_string :: "'a community list \<Rightarrow> 'a \<Rightarrow> 'a community option" where
  "find_set_containing_string [] x = None"
| "find_set_containing_string (s # list_of_sets) x =
     (if x \<in> set s then Some s else find_set_containing_string list_of_sets x)"

text \<open>\<open>itertools.combinations(pool, 2)\<close>: the pairs \<open>(pool[i], pool[j])\<close>, \<open>i < j\<close>, in
  lexicographic order of the positions.\<close>

fun combinations2 :: "'a list \<Rightarrow> ('a \<times> 'a) list" where
  "combinations2 [] = []"
| "combinations2 (x # xs) = map (Pair x) xs @ combinations2 xs"

text \<open>The test \<open>lower_set and v2 in lower_set\<close>: \<open>None\<close> and the empty set are falsy.\<close>

definition same_set :: "'a community list \<Rightarrow> 'a \<Rightarrow> 'a \<Rightarrow> bool" where
  "same_set lower_communities v1 v2 =
     (case find_set_containing_string lower_communities v1 of
        None \<Rightarrow> False
      | Some lower_set \<Rightarrow> lower_set \<noteq> [] \<and> v2 \<in> set lower_set)"

fun count_pairs :: "'a community list \<Rightarrow> ('a \<times> 'a) list \<Rightarrow> nat \<Rightarrow> nat" where
  "count_pairs lower_communities [] count_same_set = count_same_set"
| "count_pairs lower_communities ((v1, v2) # verb_pairs) count_same_set =
     count_pairs lower_communities verb_pairs
       (if same_set lower_communities v1 v2 then count_same_set + 1 else count_same_set)"

text \<open>The score of one community. Python's \<open>/\<close> on two integers is modelled as the
  exact quotient; it is only reached with at least one pair.\<close>

definition community_score :: "'a community list \<Rightarrow> 'a community \<Rightarrow> real" where
  "community_score lower_communities community =
     (let verb_pairs = combinations2 community
      in real (count_pairs lower_communities verb_pairs 0) / real (length verb_pairs))"

fun rate_communities :: "'a community list \<Rightarrow> 'a community list \<Rightarrow> real list \<Rightarrow> real list" where
  "rate_communities lower_communities [] community_ratings = community_ratings"
| "rate_communities lower_communities (community # rest) community_ratings =
     rate_communities lower_communities rest
       (if 1 < length community
        then community_ratings @ [community_score lower_communities community]
        else community_ratings)"

text \<open>The function returns either a string or a list of floats.\<close>

datatype hierarchy_value = Str string | Ratings "real list"

definition calculate_hierarchy_coefficient ::
    "'a community list \<Rightarrow> 'a community list \<Rightarrow> hierarchy_value" where
  "calculate_hierarchy_coefficient lower_communities upper_communities =
     (if list_all (\<lambda>s. length s = 1) upper_communities
      then Str ''Every lexeme in its own community''
      else Ratings (rate_communities lower_communities upper_communities []))"


text \<open>
  The vocabulary of the specification of the score. \<open>co_located coarser v1 v2\<close>: the
  first set of the coarser partition that contains \<open>v1\<close> exists and contains \<open>v2\<close>.
  \<open>precedes C v1 v2\<close>: \<open>v1\<close> comes before \<open>v2\<close> in the iteration order of \<open>C\<close>.
  \<open>unordered_pairs C\<close>: the two-element subsets of \<open>C\<close>, and \<open>preserved_pairs\<close> those
  of them whose earlier member is co-located with the later one.
\<close>

definition co_located :: "'a community list \<Rightarrow> 'a \<Rightarrow> 'a \<Rightarrow> bool" where
  "co_located coarser v1 v2 \<longleftrightarrow>
     (\<exists>i < length coarser. v1 \<in> set (coarser ! i) \<and> (\<forall>j < i. v1 \<notin> set (coarser ! j))
        \<and> v2 \<in> set (coarser ! i))"

definition precedes :: "'a list \<Rightarrow> 'a \<Rightarrow> 'a \<Rightarrow> bool" where
  "precedes C v1 v2 \<longleftrightarrow> (\<exists>i j. i < j \<and> j < length C \<and> C ! i = v1 \<and> C ! j = v2)"

definition unordered_pairs :: "'a list \<Rightarrow> 'a set set" where
  "unordered_pairs C = {A. A \<subseteq> set C \<and> card A = 2}"

definition preserved_pairs :: "'a community list \<Rightarrow> 'a list \<Rightarrow> 'a set set" where
  "preserved_pairs coarser C =
     {A \<in> unordered_pairs C. \<exists>v1 v2. A = {v1, v2} \<and> precedes C v1 v2 \<and> co_located coarser v1 v2}"

definition pair_fraction :: "'a community list \<Rightarrow> 'a list \<Rightarrow> real" where
  "pair_fraction coarser C =
     real (card (preserved_pairs coarser C)) / real (card (unordered_pairs C))"


section \<open>The standalone script (src/get_communities.py, lines 46-75)\<close>

text \<open>
  The script runs the clustering itself and keeps the lexeme-only sets in \<open>new_comms\<close>
  (its lines 20 to 38, the same statements as \<open>detect_communities_multiresolution\<close>);
  the partitions that its hierarchy computation reads are always these.
  The script's own \<open>find_set_containing_string\<close> has no final \<open>return None\<close>; falling off
  the loop returns \<open>None\<close> all the same, so it is the function above. The body of the
  script's loop over resolution pairs tests \<open>v2 in s\<close> without a guard: when no set
  contains \<open>v1\<close>, \<open>s\<close> is \<open>None\<close> and the test raises \<open>TypeError\<close>.
\<close>

text \<open>The exceptions that the modelled code can raise.\<close>

datatype py_error = TypeError | KeyError | ValueError | ZeroDivisionError | IndexError | UnboundLocalError

fun script_count_pairs ::
    "'a community list \<Rightarrow> ('a \<times> 'a) list \<Rightarrow> nat \<Rightarrow> py_error + nat" where
  "script_count_pairs upper_comms [] count_same_set = Inr count_same_set"
| "script_count_pairs upper_comms ((v1, v2) # verb_pairs) count_same_set =
     (case find_set_containing_string upper_comms v1 of
        None \<Rightarrow> Inl TypeError
      | Some s \<Rightarrow> script_count_pairs upper_comms verb_pairs
                   (if v2 \<in> set s then count_same_set + 1 else count_same_set))"

fun script_rate_communities ::
    "'a community list \<Rightarrow> 'a community list \<Rightarrow> real list \<Rightarrow> py_error + real list" where
  "script_rate_communities upper_comms [] communities_ratings = Inr communities_ratings"
| "script_rate_communities upper_comms (community # rest) communities_ratings =
     (let comm = community in
      if comm \<noteq> [] \<and> length comm \<noteq> 1 then
        (let verb_pairs = combinations2 comm in
         case script_count_pairs upper_comms verb_pairs 0 of
           Inl e \<Rightarrow> Inl e
         | Inr count_same_set \<Rightarrow>
             script_rate_communities upper_comms rest
               (communities_ratings @ [real count_same_set / real (length verb_pairs)]))
      else script_rate_communities upper_comms rest communities_ratings)"

text \<open>
  One pass of the script's loop \<open>for upper_res, lower_res in tuples\<close>, as a function of
  the two partitions it reads: \<open>lower_comms = new_comms[lower_res]\<close> and
  \<open>upper_comms = new_comms[upper_res]\<close>. The tuples are \<open>(resolutions[i],
  resolutions[i+1])\<close>, so the script's \<open>upper_res\<close> is \<open>resolutions[i]\<close> and its
  \<open>lower_res\<close> is \<open>resolutions[i+1]\<close>.
\<close>

definition script_hierarchy_rating ::
    "'a community list \<Rightarrow> 'a community list \<Rightarrow> py_error + hierarchy_value" where
  "script_hierarchy_rating lower_comms upper_comms =
     (if list_all (\<lambda>s. length s = 1) lower_comms
      then Inr (Str ''Every lexeme in its own community'')
      else (case script_rate_communities upper_comms lower_comms [] of
              Inl e \<Rightarrow> Inl e
            | Inr communities_ratings \<Rightarrow> Inr (Ratings communities_ratings)))"

text \<open>
  The adjacent pairs of the resolution list, and what the analyser and the script do
  for one pair, as functions of the pair. The analyser unpacks a pair as \<open>(lower_res, upper_res)\<close>, the
  script as \<open>(upper_res, lower_res)\<close>. \<open>communities\<close> is the dictionary from a
  resolution to its partition; reading a missing key raises \<open>KeyError\<close>.
\<close>

definition tuples :: "'r list \<Rightarrow> ('r \<times> 'r) list" where
  "tuples resolutions =
     map (\<lambda>i. (resolutions ! i, resolutions ! (i + 1))) [0..<length resolutions - 1]"

fun analyser_pass ::
    "('r \<rightharpoonup> 'a community list) \<Rightarrow> 'r \<times> 'r \<Rightarrow> py_error + hierarchy_value" where
  "analyser_pass communities (lower_res, upper_res) =
     (case communities lower_res of
        None \<Rightarrow> Inl KeyError
      | Some lower_comms \<Rightarrow>
          (case communities upper_res of
             None \<Rightarrow> Inl KeyError
           | Some upper_comms \<Rightarrow>
               Inr (calculate_hierarchy_coefficient lower_comms upper_comms)))"

fun script_pass ::
    "('r \<rightharpoonup> 'a community list) \<Rightarrow> 'r \<times> 'r \<Rightarrow> py_error + hierarchy_value" where
  "script_pass new_comms (upper_res, lower_res) =
     (case new_comms lower_res of
        None \<Rightarrow> Inl KeyError
      | Some lower_comms \<Rightarrow>
          (case new_comms upper_res of
             None \<Rightarrow> Inl KeyError
           | Some upper_comms \<Rightarrow> script_hierarchy_rating lower_comms upper_comms))"

text \<open>Every lexeme of the finer partition lies in some set of the coarser one.\<close>

definition covered_by :: "'a community list \<Rightarrow> 'a community list \<Rightarrow> bool" where
  "covered_by finer coarser = list_all (\<lambda>C. list_all (\<lambda>v. list_ex (\<lambda>s. v \<in> set s) coarser) C) finer"

text \<open>Every lookup of the first member of a pair, in the communities with more than
  one member, finds a set.\<close>

definition lookups_succeed :: "'a community list \<Rightarrow> 'a community list \<Rightarrow> bool" where
  "lookups_succeed coarser finer =
     list_all (\<lambda>C. 1 < length C \<longrightarrow>
        list_all (\<lambda>(v1, v2). list_ex (\<lambda>s. v1 \<in> set s) coarser) (combinations2 C)) finer"

text \<open>The partitions of four lexemes at two resolutions.\<close>

definition nested_partitions :: "nat \<rightharpoonup> nat community list" where
  "nested_partitions = [0 \<mapsto> [[1, 2], [3, 4]], 1 \<mapsto> [[1, 2, 3], [4]]]"


section \<open>Community detector (src/src/community_detector.py)\<close>

text \<open>
  The graph as the detector reads it: its nodes, each with the value of its
  \<open>bipartite\<close> attribute. The clustering primitive
  \<open>nx.community.louvain_communities\<close> is a parameter \<open>louvain\<close>: for a graph and a
  resolution it returns a list of sets of nodes. The sets of nodes are modelled as sets,
  the dictionaries keyed by resolution as maps.
\<close>

record 'n graph =
  nodes :: "('n \<times> nat) list"

definition lexeme_nodes :: "'n graph \<Rightarrow> 'n set" where
  "lexeme_nodes graph = set (map fst (filter (\<lambda>(n, d). d = 0) (nodes graph)))"

text \<open>\<open>[s & lexemes for s in communities[res] if s & lexemes]\<close>: a set is truthy when it
  is not empty.\<close>

definition lexeme_only :: "'n set \<Rightarrow> 'n set list \<Rightarrow> 'n set list" where
  "lexeme_only lexemes comms =
     map (\<lambda>s. s \<inter> lexemes) (filter (\<lambda>s. s \<inter> lexemes \<noteq> {}) comms)"

text \<open>\<open>communities\<close> is a \<open>defaultdict(dict)\<close>: a missing key reads as an empty
  dictionary, which iterates as no set at all.\<close>

definition detect_communities_multiresolution ::
    "('n graph \<Rightarrow> 'r \<Rightarrow> 'n set list) \<Rightarrow> 'n graph \<Rightarrow> 'r list \<Rightarrow> ('r \<rightharpoonup> 'n set list)" where
  "detect_communities_multiresolution louvain graph resolutions =
     (let lexemes = lexeme_nodes graph;
          communities = fold (\<lambda>res m. m(res \<mapsto> louvain graph res)) resolutions Map.empty;
          lexeme_communities =
            fold (\<lambda>res m. m(res \<mapsto> lexeme_only lexemes
                                     (case communities res of None \<Rightarrow> [] | Some c \<Rightarrow> c)))
                 resolutions Map.empty
      in lexeme_communities)"

text \<open>\<open>pairwise_disjoint P\<close>: any two sets at different positions of the list \<open>P\<close> have
  no common member (\<open>sorted_wrt R\<close> says that \<open>R\<close> holds between every entry and every
  later one).\<close>

definition pairwise_disjoint :: "'a set list \<Rightarrow> bool" where
  "pairwise_disjoint P = sorted_wrt (\<lambda>a b. a \<inter> b = {}) P"

text \<open>A small graph with two lexemes and two exponent nodes, and a clustering of it.\<close>

definition toy_graph :: "string graph" where
  "toy_graph = \<lparr>nodes = [(''l1'', 0), (''l2'', 0), (''e1'', 1), (''e2'', 1)]\<rparr>"

definition toy_louvain :: "string graph \<Rightarrow> nat \<Rightarrow> string set list" where
  "toy_louvain g res = [{''l1'', ''e1''}, {''e2''}, {''l2''}]"

text \<open>A graph with the lexemes 1 to 4 and the exponent node 5, and a clustering of it at
  the resolutions 0 and 1.\<close>

definition sweep_graph :: "nat graph" where
  "sweep_graph = \<lparr>nodes = [(1, 0), (2, 0), (3, 0), (4, 0), (5, 1)]\<rparr>"

definition sweep_louvain :: "nat graph \<Rightarrow> nat \<Rightarrow> nat set list" where
  "sweep_louvain g res = (if res = 0 then [{1, 2, 5}, {3, 4}] else [{1, 2, 3}, {4, 5}])"


section \<open>The hierarchy report (analyze_hierarchy, create_hierarchy_dataframe)\<close>

text \<open>
  A Python dictionary whose order matters is an association list in insertion order:
  storing under a key that is present replaces the value where it stands, storing under
  a new key appends. The key \<open>f"{lower_res}_{upper_res}"\<close> of a resolution pair is
  modelled as the pair \<open>(lower_res, upper_res)\<close> itself: resolutions are numbers, whose
  printed forms hold no underscore, so that the key determines the pair.
\<close>

fun dict_set :: "'k \<Rightarrow> 'v \<Rightarrow> ('k \<times> 'v) list \<Rightarrow> ('k \<times> 'v) list" where
  "dict_set k v [] = [(k, v)]"
| "dict_set k v ((k', v') # d) = (if k' = k then (k', v) # d else (k', v') # dict_set k v d)"

fun analyze_loop ::
    "('r \<rightharpoonup> 'a community list) \<Rightarrow> ('r \<times> 'r) list
      \<Rightarrow> (('r \<times> 'r) \<times> hierarchy_value) list
      \<Rightarrow> py_error + (('r \<times> 'r) \<times> hierarchy_value) list" where
  "analyze_loop communities [] hierarchy_ratings = Inr hierarchy_ratings"
| "analyze_loop communities (pair # rest) hierarchy_ratings =
     (case analyser_pass communities pair of
        Inl e \<Rightarrow> Inl e
      | Inr ratings \<Rightarrow> analyze_loop communities rest (dict_set pair ratings hierarchy_ratings))"

definition analyze_hierarchy ::
    "('r \<rightharpoonup> 'a community list) \<Rightarrow> 'r list
      \<Rightarrow> py_error + (('r \<times> 'r) \<times> hierarchy_value) list" where
  "analyze_hierarchy communities resolutions = analyze_loop communities (tuples resolutions) []"

text \<open>An entry of the \<open>Averages\<close> column is a string or a number.\<close>

datatype average = Text string | Number real

fun average_of :: "hierarchy_value \<Rightarrow> average" where
  "average_of (Str s) = Text s"
| "average_of (Ratings vals) =
     (if vals \<noteq> [] then Number (sum_list vals / real (length vals)) else Number 0)"

text \<open>\<open>[len(communities[x]) for x in xs]\<close>.\<close>

fun community_counts :: "('r \<rightharpoonup> 'a community list) \<Rightarrow> 'r list \<Rightarrow> py_error + nat list" where
  "community_counts communities [] = Inr []"
| "community_counts communities (x # xs) =
     (case communities x of
        None \<Rightarrow> Inl KeyError
      | Some comms \<Rightarrow>
          (case community_counts communities xs of
             Inl e \<Rightarrow> Inl e
           | Inr ns \<Rightarrow> Inr (length comms # ns)))"

text \<open>
  One row of the data frame, with its four columns in their order; \<open>None\<close> in the first
  two columns is a missing value (NaN). The frame is first built from the items of
  \<open>averages\<close>. Assigning a column to a frame that has rows raises \<open>ValueError\<close> when the
  lengths differ; assigning it to a frame without rows gives the frame one row per entry
  of the column, with missing values in the columns it already had.
\<close>

record 'r hierarchy_row =
  Keys :: "('r \<times> 'r) option"
  Averages :: "average option"
  ncomms_upper :: nat
  ncomms_lower :: nat

definition create_hierarchy_dataframe ::
    "(('r \<times> 'r) \<times> hierarchy_value) list \<Rightarrow> ('r \<rightharpoonup> 'a community list) \<Rightarrow> 'r list
      \<Rightarrow> py_error + 'r hierarchy_row list" where
  "create_hierarchy_dataframe hierarchy_ratings communities resolutions =
     (let averages = map (\<lambda>(key, vals). (key, average_of vals)) hierarchy_ratings in
      case community_counts communities (butlast resolutions) of
        Inl e \<Rightarrow> Inl e
      | Inr upper_counts \<Rightarrow>
          (case community_counts communities (tl resolutions) of
             Inl e \<Rightarrow> Inl e
           | Inr lower_counts \<Rightarrow>
               if averages = []
               then Inr (map (\<lambda>(n_upper, n_lower).
                               \<lparr>Keys = None, Averages = None,
                                ncomms_upper = n_upper, ncomms_lower = n_lower\<rparr>)
                             (zip upper_counts lower_counts))
               else if length upper_counts = length averages
                       \<and> length lower_counts = length averages
               then Inr (map (\<lambda>((key, avg), (n_upper, n_lower)).
                               \<lparr>Keys = Some key, Averages = Some avg,
                                ncomms_upper = n_upper, ncomms_lower = n_lower\<rparr>)
                             (zip averages (zip upper_counts lower_counts)))
               else Inl ValueError))"

text \<open>Two lexemes in one community at resolution 0 and in two at resolution 1.\<close>

definition split_partitions :: "nat \<rightharpoonup> string community list" where
  "split_partitions = [0 \<mapsto> [[''a'', ''b'']], 1 \<mapsto> [[''a''], [''b'']]]"


section \<open>Graph builder (src/src/graph_builder.py)\<close>

subsection \<open>The formatives table\<close>

text \<open>
  The data frame: its index (the lexeme identifiers), its column labels (the grammatical
  cells, and possibly a stem column) and the value of each cell, which is either a list
  of exponent strings or NaN (\<open>None\<close>). The table is a mapping from lexemes to mappings
  from cell labels: no lexeme identifier and no label occurs twice.
\<close>

record 'l formatives =
  index :: "'l list"
  columns :: "string list"
  cell_at :: "'l \<Rightarrow> string \<Rightarrow> string list option"

text \<open>\<open>df.drop(columns=["stem", "STEM"], errors='ignore')\<close>.\<close>

definition drop_stem :: "'l formatives \<Rightarrow> 'l formatives" where
  "drop_stem df = df\<lparr>columns := filter (\<lambda>c. c \<noteq> ''stem'' \<and> c \<noteq> ''STEM'') (columns df)\<rparr>"

subsection \<open>build_lexeme_dict\<close>

text \<open>\<open>lexeme_dict[idx] += tagged_exps\<close> on a \<open>defaultdict(list)\<close>: a new key is
  appended to the dictionary, a present one has its list extended in place.\<close>

fun dict_extend :: "'k \<Rightarrow> 'v list \<Rightarrow> ('k \<times> 'v list) list \<Rightarrow> ('k \<times> 'v list) list" where
  "dict_extend k vs [] = [(k, vs)]"
| "dict_extend k vs ((k', ws) # d) =
     (if k' = k then (k', ws @ vs) # d else (k', ws) # dict_extend k vs d)"

text \<open>The body of the inner loop: a NaN cell is skipped, a list cell contributes the
  tagged triphones of its exponents.\<close>

definition cell_step ::
    "'l formatives \<Rightarrow> 'l \<Rightarrow> string \<Rightarrow> ('l \<times> string list) list \<Rightarrow> ('l \<times> string list) list" where
  "cell_step df_combo idx col lexeme_dict =
     (case cell_at df_combo idx col of
        None \<Rightarrow> lexeme_dict
      | Some cell \<Rightarrow>
          (let triphones = concat (map generate_triphones cell);
               tagged_exps = process_cell triphones col
           in dict_extend idx tagged_exps lexeme_dict))"

definition build_lexeme_dict :: "'l formatives \<Rightarrow> ('l \<times> string list) list" where
  "build_lexeme_dict df =
     (let df_combo = drop_stem df
      in fold (\<lambda>idx lexeme_dict.
                 fold (\<lambda>col d. cell_step df_combo idx col d) (columns df_combo) lexeme_dict)
              (index df_combo) [])"

subsection \<open>index_duplicate_exponents\<close>

text \<open>The decimal digits of a natural number, as \<open>f"{n}"\<close> prints them.\<close>

definition digit_char :: "nat \<Rightarrow> char" where
  "digit_char d = ''0123456789'' ! d"

fun str_nat :: "nat \<Rightarrow> string" where
  "str_nat n = (if n < 10 then [digit_char n] else str_nat (n div 10) @ [digit_char (n mod 10)])"

text \<open>The loop over the exponents of one lexeme, with the counter \<open>seen\<close> (a
  \<open>defaultdict(int)\<close>).\<close>

fun index_loop :: "(string \<Rightarrow> nat) \<Rightarrow> string list \<Rightarrow> string list" where
  "index_loop seen [] = []"
| "index_loop seen (exp_s # exps_list) =
     (let seen' = seen(exp_s := seen exp_s + 1)
      in (if 1 < seen' exp_s then exp_s @ ''_'' @ str_nat (seen' exp_s - 1) else exp_s)
         # index_loop seen' exps_list)"

definition indexed_exps :: "string list \<Rightarrow> string list" where
  "indexed_exps exps_list = index_loop (\<lambda>_. 0) exps_list"

text \<open>The keys of \<open>lexeme_dict\<close> are distinct, so each assignment
  \<open>indexed_dict[idx] = indexed_exps\<close> appends an entry.\<close>

definition index_duplicate_exponents ::
    "('l \<times> string list) list \<Rightarrow> ('l \<times> string list) list" where
  "index_duplicate_exponents lexeme_dict =
     map (\<lambda>(idx, exps_list). (idx, indexed_exps exps_list)) lexeme_dict"

subsection \<open>calculate_edge_weights\<close>

text \<open>
  A Python float that is a number or NaN; the table of counts only holds list lengths
  and NaN. Dividing by zero raises, dividing by NaN gives NaN.
\<close>

datatype pyfloat = Float real | NaN

fun py_div :: "real \<Rightarrow> pyfloat \<Rightarrow> py_error + pyfloat" where
  "py_div a NaN = Inr NaN"
| "py_div a (Float x) = (if x = 0 then Inl ZeroDivisionError else Inr (Float (a / x)))"

text \<open>
  The table of counts that the \<open>pandas\<close> calls build from the table without the stem
  columns: it is melted to one row per lexeme and column, with the length of a list cell
  and NaN for any other cell; \<open>pivot_table\<close> (mean, dropping NaN) then keeps the
  lexemes and the columns that have at least one list cell, and holds NaN where a kept
  lexeme has no list in a kept column; \<open>to_dict(orient="index")\<close> turns it into a
  dictionary of dictionaries of Python floats. \<open>count_table\<close> is this dictionary as a
  map from lexemes to maps from column labels.
\<close>

definition count_table :: "'l formatives \<Rightarrow> 'l \<rightharpoonup> (string \<rightharpoonup> pyfloat)" where
  "count_table df_combo lexeme =
     (if lexeme \<in> set (index df_combo)
         \<and> list_ex (\<lambda>c. cell_at df_combo lexeme c \<noteq> None) (columns df_combo)
      then Some (\<lambda>variable.
             if variable \<in> set (columns df_combo)
                \<and> list_ex (\<lambda>l. cell_at df_combo l variable \<noteq> None) (index df_combo)
             then Some (case cell_at df_combo lexeme variable of
                          None \<Rightarrow> NaN
                        | Some lst \<Rightarrow> Float (real (length lst)))
             else None)
      else None)"

text \<open>
  \<open>weights_dict\<close>, with the two calls that refuse a table before any count is taken:
  \<open>rename_axis("lexeme").reset_index()\<close> inserts the index as a column named
  \<open>lexeme\<close> and raises \<open>ValueError\<close> when the table already has a column of that name;
  \<open>pd.melt\<close> names its value column \<open>value\<close> and raises \<open>ValueError\<close> when the table
  has a column of that name.
\<close>

definition weights_dict :: "'l formatives \<Rightarrow> py_error + ('l \<rightharpoonup> (string \<rightharpoonup> pyfloat))" where
  "weights_dict df =
     (let df_combo = drop_stem df in
      if ''lexeme'' \<in> set (columns df_combo) then Inl ValueError
      else if ''value'' \<in> set (columns df_combo) then Inl ValueError
      else Inr (count_table df_combo))"

definition dict_to_tuple_list :: "('k \<times> 'v list) list \<Rightarrow> ('k \<times> 'v) list" where
  "dict_to_tuple_list input_dict =
     concat (map (\<lambda>(key, value_list). map (Pair key) value_list) input_dict)"

text \<open>\<open>str.split(sep)\<close> for a one-character separator.\<close>

fun split :: "char \<Rightarrow> string \<Rightarrow> string list" where
  "split sep [] = [[]]"
| "split sep (c # cs) =
     (if c = sep then [] # split sep cs
      else (case split sep cs of [] \<Rightarrow> [[c]] | w # ws \<Rightarrow> (c # w) # ws))"

text \<open>
  \<open>cell = lst[1].split("-")[1]\<close>, then \<open>cell = cell.split("_")[0]\<close> if the cell holds an
  underscore. \<open>None\<close> stands for the \<open>IndexError\<close> of a tag without a hyphen.
\<close>

definition edge_cell :: "string \<Rightarrow> string option" where
  "edge_cell tag =
     (case split CHR ''-'' tag of
        _ # cell # _ \<Rightarrow>
          Some (if CHR ''_'' \<in> set cell then hd (split CHR ''_'' cell) else cell)
      | _ \<Rightarrow> None)"

text \<open>
  An aborted build. \<open>TableError\<close>: an exception raised while the table of counts is
  built, before the \<open>try\<close> block, so that nothing is logged. \<open>BuildError\<close>: the
  exception that leaves the loop over the edges, with the edge and the cell that the
  handler logs before it raises the exception again. When the first edge already has no
  hyphen, \<open>cell\<close> is unbound and the handler itself fails; later the handler logs the
  cell of the edge before.
\<close>

datatype 'l build_error =
    TableError py_error
  | BuildError py_error "'l \<times> string" "string option"

fun weight_loop ::
    "('l \<rightharpoonup> (string \<rightharpoonup> pyfloat)) \<Rightarrow> ('l \<times> string) list \<Rightarrow> string option
      \<Rightarrow> 'l build_error + ('l \<times> string \<times> pyfloat) list" where
  "weight_loop weights [] last_cell = Inr []"
| "weight_loop weights ((lexeme, tag) # edges) last_cell =
     (case edge_cell tag of
        None \<Rightarrow>
          (case last_cell of
             None \<Rightarrow> Inl (BuildError UnboundLocalError (lexeme, tag) None)
           | Some stale \<Rightarrow> Inl (BuildError IndexError (lexeme, tag) (Some stale)))
      | Some cell \<Rightarrow>
          (case weights lexeme of
             None \<Rightarrow> Inl (BuildError KeyError (lexeme, tag) (Some cell))
           | Some row \<Rightarrow>
               (case row cell of
                  None \<Rightarrow> Inl (BuildError KeyError (lexeme, tag) (Some cell))
                | Some n \<Rightarrow>
                    (case py_div 1 n of
                       Inl e \<Rightarrow> Inl (BuildError e (lexeme, tag) (Some cell))
                     | Inr weight \<Rightarrow>
                         (case weight_loop weights edges (Some cell) of
                            Inl e \<Rightarrow> Inl e
                          | Inr rest \<Rightarrow> Inr ((lexeme, tag, weight) # rest))))))"

definition calculate_edge_weights ::
    "'l formatives \<Rightarrow> ('l \<times> string list) list
      \<Rightarrow> 'l build_error + ('l \<times> string \<times> pyfloat) list" where
  "calculate_edge_weights df indexed_dict =
     (case weights_dict df of
        Inl e \<Rightarrow> Inl (TableError e)
      | Inr weights \<Rightarrow>
          (let edges = dict_to_tuple_list indexed_dict
           in weight_loop weights edges None))"

text \<open>The edge list of the graph that \<open>create_bipartite_graph\<close> builds from a table.\<close>

definition graph_edges :: "'l formatives \<Rightarrow> 'l build_error + ('l \<times> string \<times> pyfloat) list" where
  "graph_edges df =
     (let lexeme_dict = build_lexeme_dict df;
          indexed_dict = index_duplicate_exponents lexeme_dict
      in calculate_edge_weights df indexed_dict)"


subsection \<open>Vocabulary for the disambiguated tags\<close>

text \<open>
  \<open>strip_ordinal\<close> removes the last underscore of a string and what follows it.
  \<open>collision_free\<close>: no tag of the list is another tag of the list followed by an
  underscore and an ordinal that the indexing of that other tag hands out (1 up to its
  number of occurrences minus 1). \<open>unsuffixed\<close> strips the entries that the indexing
  changed and keeps the others. The last table has the cells \<open>X\<close> and \<open>X_1\<close>.
\<close>

definition strip_ordinal :: "string \<Rightarrow> string" where
  "strip_ordinal s =
     (if CHR ''_'' \<in> set s then rev (tl (dropWhile (\<lambda>c. c \<noteq> CHR ''_'') (rev s))) else s)"

definition collision_free :: "string list \<Rightarrow> bool" where
  "collision_free exps_list =
     list_all (\<lambda>e. list_all (\<lambda>k. e @ ''_'' @ str_nat k \<notin> set exps_list)
                          [1..<count_list exps_list e]) exps_list"

definition unsuffixed :: "string list \<Rightarrow> string list \<Rightarrow> string list" where
  "unsuffixed exps_list indexed =
     map (\<lambda>(orig, out). if out = orig then out else strip_ordinal out) (zip exps_list indexed)"

definition suffix_table :: "nat formatives" where
  "suffix_table = \<lparr>index = [1], columns = [''X'', ''X_1''],
     cell_at = (\<lambda>lex col. if col = ''X'' then Some [''a'', ''a'']
                            else if col = ''X_1'' then Some [''a''] else None)\<rparr>"



subsection \<open>Vocabulary for the weight lookups\<close>

text \<open>
  \<open>lookup_error weights (lexeme, tag)\<close> is the exception of the lookup
  \<open>1 / weights_dict[lexeme][cell]\<close> for the cell recovered from the tag: \<open>KeyError\<close> when
  the lexeme or the cell is not a key, \<open>ZeroDivisionError\<close> when the count is zero, and
  none otherwise. \<open>edge_ok\<close>: the tag has a cell and the lookup raises nothing.
\<close>

fun lookup_error :: "('l \<rightharpoonup> (string \<rightharpoonup> pyfloat)) \<Rightarrow> 'l \<times> string \<Rightarrow> py_error option" where
  "lookup_error weights (lexeme, tag) =
     (case edge_cell tag of
        None \<Rightarrow> None
      | Some cell \<Rightarrow>
          (case weights lexeme of
             None \<Rightarrow> Some KeyError
           | Some row \<Rightarrow>
               (case row cell of
                  None \<Rightarrow> Some KeyError
                | Some n \<Rightarrow> (if n = Float 0 then Some ZeroDivisionError else None))))"

fun edge_ok :: "('l \<rightharpoonup> (string \<rightharpoonup> pyfloat)) \<Rightarrow> 'l \<times> string \<Rightarrow> bool" where
  "edge_ok weights (lexeme, tag) =
     (edge_cell tag \<noteq> None \<and> lookup_error weights (lexeme, tag) = None)"

text \<open>
  Two tables. In the first, lexeme 1 has a list only in cell \<open>A\<close> and lexeme 2 only in
  cell \<open>A_B\<close>. In the second (scenario B of the specification), lexeme 1 has the
  exponent \<open>a\<close> and lexeme 2 the exponents \<open>a\<close> and \<open>b\<close> in the cell \<open>NOM.SG\<close>.
\<close>

definition underscore_table :: "nat formatives" where
  "underscore_table = \<lparr>index = [1, 2], columns = [''A'', ''A_B''],
     cell_at = (\<lambda>lex col. if lex = 1 \<and> col = ''A'' then Some [''x'']
                            else if lex = 2 \<and> col = ''A_B'' then Some [''a''] else None)\<rparr>"

definition scenario_b :: "nat formatives" where
  "scenario_b = \<lparr>index = [1, 2], columns = [''stem'', ''NOM.SG''],
     cell_at = (\<lambda>lex col. if col = ''NOM.SG''
                            then (if lex = 1 then Some [''a''] else Some [''a'', ''b''])
                            else if col = ''stem'' then Some [''x''] else None)\<rparr>"


subsection \<open>Vocabulary for the edge weights\<close>

text \<open>
  \<open>plain_labels\<close>: no cell label of the table holds a hyphen or an underscore and no
  exponent holds a hyphen, so that the two \<open>split\<close> calls of \<open>calculate_edge_weights\<close>
  cut a tag where \<open>process_cell\<close> and \<open>index_duplicate_exponents\<close> joined it.
  \<open>reserved_table\<close> is a table with a cell named \<open>lexeme\<close>.
  \<open>originates tag col cell\<close>: the tag is a triphone of an exponent of the list \<open>cell\<close>,
  tagged with the label \<open>col\<close>, with or without an ordinal suffix. The last table has
  one lexeme with the same exponent twice in one cell.
\<close>

definition plain_labels :: "'l formatives \<Rightarrow> bool" where
  "plain_labels df =
     (list_all (\<lambda>c. CHR ''-'' \<notin> set c \<and> CHR ''_'' \<notin> set c) (columns (drop_stem df))
      \<and> list_all (\<lambda>lexeme.
           list_all (\<lambda>c. case cell_at df lexeme c of
                            None \<Rightarrow> True
                          | Some cell \<Rightarrow> list_all (\<lambda>exponent. CHR ''-'' \<notin> set exponent) cell)
                    (columns (drop_stem df)))
           (index df))"

definition originates :: "string \<Rightarrow> string \<Rightarrow> string list \<Rightarrow> bool" where
  "originates tag col cell =
     (\<exists>exponent \<in> set cell. \<exists>triphone \<in> set (generate_triphones exponent).
        tag = triphone @ ''-'' @ col \<or> (\<exists>k. tag = triphone @ ''-'' @ col @ ''_'' @ str_nat k))"

definition reserved_table :: "nat formatives" where
  "reserved_table = \<lparr>index = [1], columns = [''lexeme''],
     cell_at = (\<lambda>lex col. if lex = 1 \<and> col = ''lexeme'' then Some [''a''] else None)\<rparr>"

definition repeated_table :: "nat formatives" where
  "repeated_table = \<lparr>index = [1], columns = [''NOM''],
     cell_at = (\<lambda>lex col. if lex = 1 \<and> col = ''NOM'' then Some [''a'', ''a''] else None)\<rparr>"

text \<open>\<open>sourced df lexeme tag\<close>: the tag is a tagged triphone of an exponent that the table
  lists for the lexeme; \<open>all_sourced\<close>: every tag of a lexeme dictionary is.\<close>

definition sourced :: "'l formatives \<Rightarrow> 'l \<Rightarrow> string \<Rightarrow> bool" where
  "sourced df lexeme tag =
     (\<exists>col \<in> set (columns df). \<exists>cell. lexeme \<in> set (index df) \<and> cell_at df lexeme col = Some cell
        \<and> (\<exists>e \<in> set cell. \<exists>t \<in> set (generate_triphones e). tag = t @ ''-'' @ col))"

definition all_sourced :: "'l formatives \<Rightarrow> ('l \<times> string list) list \<Rightarrow> bool" where
  "all_sourced df d = (\<forall>(l, tags) \<in> set d. \<forall>tag \<in> set tags. sourced df l tag)"


section \<open>Properties of the triphone encoder\<close>

lemma triphone_loop_eq:
  "triphone_loop p is acc = acc @ map (\<lambda>i. slice p i (i + 3)) is"
  by (induction "is" arbitrary: acc) simp_all

lemma generate_triphones_long:
  assumes "3 < length (''#'' @ s @ ''#'')"
  shows "generate_triphones s =
         map (\<lambda>i. take 3 (drop i (''#'' @ s @ ''#''))) [0..<length (''#'' @ s @ ''#'') - 2]"
  using assms by (simp add: generate_triphones_def triphone_loop_eq slice_def Let_def)

text \<open>
  Claim C3. The encoder pads its input with one \<open>#\<close> on each side. A padded string of
  length at most 3 is returned as the only triphone; otherwise the result has
  (padded length - 2) entries, the \<open>i\<close>-th being the length-3 substring that starts at
  position \<open>i\<close> of the padded string. The model has no failing branch, and the empty
  string gives the single triphone \<open>##\<close>.
\<close>

theorem generate_triphones_spec:
  fixes s :: string
  defines "p \<equiv> ''#'' @ s @ ''#''"
  shows "(length p \<le> 3 \<longrightarrow> generate_triphones s = [p])
       \<and> (3 < length p \<longrightarrow>
            length (generate_triphones s) = length p - 2
          \<and> (\<forall>i < length p - 2.
                length (generate_triphones s ! i) = 3
              \<and> p = take i p @ generate_triphones s ! i @ drop (i + 3) p))
       \<and> generate_triphones [] = [''##'']"
proof (intro conjI impI allI)
  show "generate_triphones s = [p]" if "length p \<le> 3"
    using that by (simp add: generate_triphones_def p_def)
  show "generate_triphones [] = [''##'']"
    by (simp add: generate_triphones_def)
next
  assume long: "3 < length p"
  then have eq: "generate_triphones s = map (\<lambda>i. take 3 (drop i p)) [0..<length p - 2]"
    unfolding p_def by (rule generate_triphones_long)
  show "length (generate_triphones s) = length p - 2"
    by (simp add: eq)
  fix i assume i: "i < length p - 2"
  then have nth: "generate_triphones s ! i = take 3 (drop i p)"
    by (simp add: eq)
  show "length (generate_triphones s ! i) = 3"
    using i by (simp add: nth)
  have "take 3 (drop i p) @ drop (i + 3) p = drop i p"
    by (metis add.commute append_take_drop_id drop_drop)
  then show "p = take i p @ generate_triphones s ! i @ drop (i + 3) p"
    by (simp add: nth)
qed

theorem generate_triphones_spec_witness:
  "3 < length (''#'' @ ''ab'' @ ''#'')
   \<and> generate_triphones ''ab'' = [''#ab'', ''ab#'']
   \<and> length (generate_triphones ''ab'') = length (''#'' @ ''ab'' @ ''#'') - 2
   \<and> length (''#'' @ ''a'' @ ''#'') \<le> 3 \<and> generate_triphones ''a'' = [''#a#'']"
  using generate_triphones_spec [of "''ab''"] generate_triphones_spec [of "''a''"]
  by (simp add: generate_triphones_def slice_def)


section \<open>Properties of the hierarchy coefficient\<close>

text \<open>
  Claim C6. \<open>calculate_hierarchy_coefficient\<close> returns the sentinel string, and not a
  list of scores, exactly when every community of the upper (finer) partition has one
  member.
\<close>

theorem singleton_sentinel_iff:
  "((calculate_hierarchy_coefficient lower_communities upper_communities
       = Str ''Every lexeme in its own community'')
    \<longleftrightarrow> (\<forall>s \<in> set upper_communities. length s = 1))
 \<and> ((\<exists>ratings. calculate_hierarchy_coefficient lower_communities upper_communities
       = Ratings ratings)
    \<longleftrightarrow> \<not> (\<forall>s \<in> set upper_communities. length s = 1))"
  by (simp add: calculate_hierarchy_coefficient_def list_all_iff)

theorem singleton_sentinel_iff_witness:
  "list_all (\<lambda>s. length s = 1) [[2::nat], [3]]
   \<and> calculate_hierarchy_coefficient [[2::nat, 3]] [[2], [3]]
       = Str ''Every lexeme in its own community''
   \<and> \<not> list_all (\<lambda>s. length s = 1) [[2::nat, 3]]
   \<and> (\<exists>ratings. calculate_hierarchy_coefficient [[2::nat], [3]] [[2, 3]] = Ratings ratings)"
  using singleton_sentinel_iff [of "[[2::nat, 3]]" "[[2], [3]]"]
        singleton_sentinel_iff [of "[[2::nat], [3]]" "[[2, 3]]"]
  by simp

section \<open>The per-community scores\<close>

lemma co_located_Nil: "\<not> co_located [] v1 v2"
  by (simp add: co_located_def)

lemma co_located_Cons:
  "co_located (s # rest) v1 v2 = (if v1 \<in> set s then v2 \<in> set s else co_located rest v1 v2)"
proof (cases "v1 \<in> set s")
  case True
  have "co_located (s # rest) v1 v2 \<longleftrightarrow> v2 \<in> set s"
  proof
    assume "co_located (s # rest) v1 v2"
    then obtain i where i: "i < length (s # rest)" "v1 \<in> set ((s # rest) ! i)"
      "\<forall>j < i. v1 \<notin> set ((s # rest) ! j)" "v2 \<in> set ((s # rest) ! i)"
      unfolding co_located_def by blast
    have "i = 0"
    proof (rule ccontr)
      assume "i \<noteq> 0"
      then have "0 < i" by simp
      with i(3) have "v1 \<notin> set ((s # rest) ! 0)" by blast
      with True show False by simp
    qed
    with i(4) show "v2 \<in> set s" by simp
  next
    assume "v2 \<in> set s"
    with True show "co_located (s # rest) v1 v2"
      unfolding co_located_def by (intro exI[of _ 0]) simp
  qed
  with True show ?thesis by simp
next
  case False
  have "co_located (s # rest) v1 v2 \<longleftrightarrow> co_located rest v1 v2"
  proof
    assume "co_located (s # rest) v1 v2"
    then obtain i where i: "i < length (s # rest)" "v1 \<in> set ((s # rest) ! i)"
      "\<forall>j < i. v1 \<notin> set ((s # rest) ! j)" "v2 \<in> set ((s # rest) ! i)"
      unfolding co_located_def by blast
    from i(2) False obtain k where k: "i = Suc k" by (cases i) auto
    have "\<forall>j < k. v1 \<notin> set (rest ! j)"
    proof (intro allI impI)
      fix j assume "j < k"
      then have "Suc j < i" using k by simp
      with i(3) have "v1 \<notin> set ((s # rest) ! Suc j)" by blast
      then show "v1 \<notin> set (rest ! j)" by simp
    qed
    with i k show "co_located rest v1 v2"
      unfolding co_located_def by (intro exI[of _ k]) simp
  next
    assume "co_located rest v1 v2"
    then obtain i where i: "i < length rest" "v1 \<in> set (rest ! i)"
      "\<forall>j < i. v1 \<notin> set (rest ! j)" "v2 \<in> set (rest ! i)"
      unfolding co_located_def by blast
    have "\<forall>j < Suc i. v1 \<notin> set ((s # rest) ! j)"
    proof (intro allI impI)
      fix j assume j: "j < Suc i"
      show "v1 \<notin> set ((s # rest) ! j)"
      proof (cases j)
        case 0 with False show ?thesis by simp
      next
        case (Suc m) with j i(3) show ?thesis by simp
      qed
    qed
    with i show "co_located (s # rest) v1 v2"
      unfolding co_located_def by (intro exI[of _ "Suc i"]) simp
  qed
  with False show ?thesis by simp
qed

lemma same_set_co_located: "same_set coarser v1 v2 = co_located coarser v1 v2"
proof (induction coarser)
  case Nil
  show ?case by (simp add: same_set_def co_located_Nil)
next
  case (Cons s rest)
  then show ?case
    by (auto simp: same_set_def co_located_Cons)
qed

lemma count_pairs_filter:
  "count_pairs coarser ps c = c + length (filter (\<lambda>(v1, v2). same_set coarser v1 v2) ps)"
  by (induction ps arbitrary: c) auto

lemma rate_communities_map:
  "rate_communities coarser finer acc
     = acc @ map (community_score coarser) (filter (\<lambda>C. 1 < length C) finer)"
  by (induction finer arbitrary: acc) auto

lemma length_combinations2: "length (combinations2 xs) = length xs choose 2"
  by (induction xs) (simp_all add: numeral_2_eq_2)

lemma set_combinations2:
  "set (combinations2 xs) = {(v1, v2). precedes xs v1 v2}"
proof (induction xs)
  case Nil
  show ?case by (simp add: precedes_def)
next
  case (Cons x xs)
  have "precedes (x # xs) v1 v2 \<longleftrightarrow> (v1 = x \<and> v2 \<in> set xs) \<or> precedes xs v1 v2" for v1 v2
  proof
    assume "precedes (x # xs) v1 v2"
    then obtain i j where ij: "i < j" "j < length (x # xs)" "(x # xs) ! i = v1" "(x # xs) ! j = v2"
      unfolding precedes_def by blast
    from ij(1) obtain j' where j': "j = Suc j'" by (cases j) auto
    show "(v1 = x \<and> v2 \<in> set xs) \<or> precedes xs v1 v2"
    proof (cases i)
      case 0
      with ij j' show ?thesis by auto
    next
      case (Suc i')
      with ij j' have "i' < j'" "j' < length xs" "xs ! i' = v1" "xs ! j' = v2" by auto
      then show ?thesis unfolding precedes_def by blast
    qed
  next
    assume "(v1 = x \<and> v2 \<in> set xs) \<or> precedes xs v1 v2"
    then show "precedes (x # xs) v1 v2"
    proof
      assume a: "v1 = x \<and> v2 \<in> set xs"
      then obtain j where "j < length xs" "xs ! j = v2" by (auto simp: in_set_conv_nth)
      with a show ?thesis unfolding precedes_def
        by (intro exI[of _ 0] exI[of _ "Suc j"]) simp
    next
      assume "precedes xs v1 v2"
      then obtain i j where "i < j" "j < length xs" "xs ! i = v1" "xs ! j = v2"
        unfolding precedes_def by blast
      then show ?thesis unfolding precedes_def
        by (intro exI[of _ "Suc i"] exI[of _ "Suc j"]) simp
    qed
  qed
  with Cons show ?case by auto
qed

lemma precedes_in_set: "precedes xs v1 v2 \<Longrightarrow> v1 \<in> set xs \<and> v2 \<in> set xs"
  unfolding precedes_def by (metis nth_mem order.strict_trans)

lemma precedes_distinct:
  assumes "distinct xs" "precedes xs v1 v2"
  shows "v1 \<noteq> v2" "\<not> precedes xs v2 v1"
proof -
  from assms(2) obtain i j where ij: "i < j" "j < length xs" "xs ! i = v1" "xs ! j = v2"
    unfolding precedes_def by blast
  with assms(1) show "v1 \<noteq> v2"
    by (metis nth_eq_iff_index_eq order.strict_trans less_irrefl)
  show "\<not> precedes xs v2 v1"
  proof
    assume "precedes xs v2 v1"
    then obtain k l where kl: "k < l" "l < length xs" "xs ! k = v2" "xs ! l = v1"
      unfolding precedes_def by blast
    from assms(1) ij kl have "k = j" "l = i"
      by (metis nth_eq_iff_index_eq order.strict_trans)+
    with ij kl show False by simp
  qed
qed

lemma distinct_combinations2: "distinct xs \<Longrightarrow> distinct (combinations2 xs)"
proof (induction xs)
  case Nil show ?case by simp
next
  case (Cons x xs)
  have "(x, b) \<notin> set (combinations2 xs)" for b
    using Cons.prems precedes_in_set[of xs x b] by (auto simp: set_combinations2)
  with Cons show ?case
    by (auto simp: distinct_map inj_on_def)
qed

lemma pair_set_inj:
  assumes "distinct xs"
  shows "inj_on (\<lambda>(v1, v2). {v1, v2}) (set (combinations2 xs))"
proof (rule inj_onI, clarify)
  fix a b c d
  assume ab: "(a, b) \<in> set (combinations2 xs)" and cd: "(c, d) \<in> set (combinations2 xs)"
    and eq: "{a, b} = {c, d}"
  from ab cd have p: "precedes xs a b" "precedes xs c d" by (simp_all add: set_combinations2)
  from eq have "(a = c \<and> b = d) \<or> (a = d \<and> b = c)" by (auto simp: doubleton_eq_iff)
  then show "a = c \<and> b = d"
    using precedes_distinct(2)[OF assms p(1)] p(2) by auto
qed

lemma pair_set_image:
  assumes "distinct xs"
  shows "(\<lambda>(v1, v2). {v1, v2}) ` set (combinations2 xs) = unordered_pairs xs"
proof (intro set_eqI iffI)
  fix A assume "A \<in> (\<lambda>(v1, v2). {v1, v2}) ` set (combinations2 xs)"
  then obtain a b where "precedes xs a b" "A = {a, b}" by (auto simp: set_combinations2)
  then show "A \<in> unordered_pairs xs"
    using precedes_in_set[of xs a b] precedes_distinct(1)[OF assms, of a b]
    by (simp add: unordered_pairs_def)
next
  fix A assume "A \<in> unordered_pairs xs"
  then obtain a b where ab: "A = {a, b}" "a \<noteq> b" "a \<in> set xs" "b \<in> set xs"
    by (auto simp: unordered_pairs_def card_2_iff)
  then obtain i j where ij: "i < length xs" "xs ! i = a" "j < length xs" "xs ! j = b"
    by (auto simp: in_set_conv_nth)
  with ab(2) have "i < j \<or> j < i" by (cases i j rule: linorder_cases) auto
  then have "precedes xs a b \<or> precedes xs b a"
    using ij unfolding precedes_def by blast
  then show "A \<in> (\<lambda>(v1, v2). {v1, v2}) ` set (combinations2 xs)"
  proof
    assume "precedes xs a b"
    then have "(a, b) \<in> set (combinations2 xs)" by (simp add: set_combinations2)
    then show ?thesis using ab(1) by (force simp: image_iff)
  next
    assume "precedes xs b a"
    then have "(b, a) \<in> set (combinations2 xs)" by (simp add: set_combinations2)
    moreover have "A = {b, a}" using ab(1) by auto
    ultimately show ?thesis by (force simp: image_iff)
  qed
qed

lemma card_unordered_pairs:
  assumes "distinct C"
  shows "card (unordered_pairs C) = length (combinations2 C)"
proof -
  have "card (unordered_pairs C) = card ((\<lambda>(v1, v2). {v1, v2}) ` set (combinations2 C))"
    by (simp add: pair_set_image[OF assms])
  also have "\<dots> = card (set (combinations2 C))"
    by (rule card_image[OF pair_set_inj[OF assms]])
  also have "\<dots> = length (combinations2 C)"
    by (rule distinct_card[OF distinct_combinations2[OF assms]])
  finally show ?thesis .
qed

lemma card_preserved_pairs:
  assumes "distinct C"
  shows "card (preserved_pairs coarser C)
       = length (filter (\<lambda>(v1, v2). same_set coarser v1 v2) (combinations2 C))"
proof -
  let ?P = "\<lambda>(v1, v2). same_set coarser v1 v2"
  let ?f = "\<lambda>(v1, v2). {v1, v2}"
  have "preserved_pairs coarser C = ?f ` set (filter ?P (combinations2 C))"
  proof (intro set_eqI iffI)
    fix A assume "A \<in> preserved_pairs coarser C"
    then obtain v1 v2 where "A = {v1, v2}" "precedes C v1 v2" "co_located coarser v1 v2"
      unfolding preserved_pairs_def by blast
    then have "(v1, v2) \<in> set (filter ?P (combinations2 C))" "A = ?f (v1, v2)"
      by (simp_all add: set_combinations2 same_set_co_located)
    then show "A \<in> ?f ` set (filter ?P (combinations2 C))" by blast
  next
    fix A assume "A \<in> ?f ` set (filter ?P (combinations2 C))"
    then obtain v1 v2 where v: "(v1, v2) \<in> set (combinations2 C)" "same_set coarser v1 v2"
      "A = {v1, v2}" by auto
    then have "A \<in> unordered_pairs C"
      using pair_set_image[OF assms] by (force simp: image_iff)
    with v show "A \<in> preserved_pairs coarser C"
      unfolding preserved_pairs_def
      by (auto simp: set_combinations2 same_set_co_located)
  qed
  moreover have "inj_on ?f (set (filter ?P (combinations2 C)))"
    by (rule inj_on_subset[OF pair_set_inj[OF assms]]) auto
  ultimately have "card (preserved_pairs coarser C) = card (set (filter ?P (combinations2 C)))"
    by (simp add: card_image)
  also have "\<dots> = length (filter ?P (combinations2 C))"
    by (rule distinct_card[OF distinct_filter[OF distinct_combinations2[OF assms]]])
  finally show ?thesis .
qed

lemma community_score_fraction:
  "distinct C \<Longrightarrow> community_score coarser C = pair_fraction coarser C"
  by (simp add: community_score_def pair_fraction_def Let_def count_pairs_filter
      card_preserved_pairs card_unordered_pairs)

lemma pair_fraction_bounds:
  assumes "distinct C"
  shows "0 \<le> pair_fraction coarser C \<and> pair_fraction coarser C \<le> 1"
proof -
  have "card (preserved_pairs coarser C) \<le> card (unordered_pairs C)"
    by (simp add: card_preserved_pairs[OF assms] card_unordered_pairs[OF assms])
  then show ?thesis
    by (auto simp: pair_fraction_def divide_le_eq_1)
qed

text \<open>
  Claim C1. When the finer (upper) partition is not all-singleton, the result is the list
  holding, for each community \<open>C\<close> of the finer partition with more than one lexeme and in
  the order of the partition, the number of unordered pairs of distinct lexemes of \<open>C\<close>
  whose earlier lexeme has its first containing set of the coarser partition in common
  with the later one, divided by the number of all unordered pairs of distinct lexemes of
  \<open>C\<close>. A lexeme that no coarser set contains makes the pair count as not co-located
  (\<open>co_located\<close> is then false; the model has no failing branch). The divisor is positive
  and every score lies between 0 and 1. Communities are Python sets, so their member
  lists are distinct.
\<close>

theorem hierarchy_scores:
  assumes "\<not> list_all (\<lambda>s. length s = 1) finer"
      and "list_all distinct finer"
  shows "calculate_hierarchy_coefficient coarser finer
           = Ratings (map (pair_fraction coarser) (filter (\<lambda>C. 1 < length C) finer))
       \<and> list_all (\<lambda>C. 0 < card (unordered_pairs C)) (filter (\<lambda>C. 1 < length C) finer)
       \<and> list_all (\<lambda>x. 0 \<le> x \<and> x \<le> 1)
           (map (pair_fraction coarser) (filter (\<lambda>C. 1 < length C) finer))"
proof (intro conjI)
  have "map (community_score coarser) (filter (\<lambda>C. 1 < length C) finer)
      = map (pair_fraction coarser) (filter (\<lambda>C. 1 < length C) finer)"
    using assms(2) by (intro map_cong refl community_score_fraction) (auto simp: list_all_iff)
  with assms(1) show "calculate_hierarchy_coefficient coarser finer
           = Ratings (map (pair_fraction coarser) (filter (\<lambda>C. 1 < length C) finer))"
    by (simp add: calculate_hierarchy_coefficient_def rate_communities_map)
  show "list_all (\<lambda>C. 0 < card (unordered_pairs C)) (filter (\<lambda>C. 1 < length C) finer)"
    using assms(2)
    by (auto simp: list_all_iff card_unordered_pairs length_combinations2)
  show "list_all (\<lambda>x. 0 \<le> x \<and> x \<le> 1)
           (map (pair_fraction coarser) (filter (\<lambda>C. 1 < length C) finer))"
    using assms(2) pair_fraction_bounds by (auto simp: list_all_iff)
qed

theorem hierarchy_scores_witness:
  "\<not> list_all (\<lambda>s. length s = 1) [[1::nat, 2, 3], [4]]
   \<and> list_all distinct [[1::nat, 2, 3], [4]]
   \<and> calculate_hierarchy_coefficient [[1::nat, 2], [3]] [[1, 2, 3], [4]]
       = Ratings [pair_fraction [[1::nat, 2], [3]] [1, 2, 3]]
   \<and> calculate_hierarchy_coefficient [[1::nat, 2], [3]] [[1, 2, 3], [4]] = Ratings [1 / 3]"
  using hierarchy_scores [of "[[1::nat, 2, 3], [4]]" "[[1::nat, 2], [3]]"]
  by (simp add: calculate_hierarchy_coefficient_def community_score_def same_set_def)

section \<open>The script's pass and the analyser's pass\<close>

lemma find_set_None_iff:
  "find_set_containing_string sets x = None \<longleftrightarrow> \<not> list_ex (\<lambda>s. x \<in> set s) sets"
  by (induction sets) auto

lemma find_set_Some_mem:
  "find_set_containing_string sets x = Some s \<Longrightarrow> x \<in> set s"
  by (induction sets) (auto split: if_splits)

lemma script_count_pairs_eq:
  "script_count_pairs coarser ps c =
     (if list_all (\<lambda>(v1, v2). list_ex (\<lambda>s. v1 \<in> set s) coarser) ps
      then Inr (count_pairs coarser ps c) else Inl TypeError)"
proof (induction ps arbitrary: c)
  case Nil
  show ?case by simp
next
  case (Cons p ps)
  obtain v1 v2 where p: "p = (v1, v2)" by (cases p)
  show ?case
  proof (cases "find_set_containing_string coarser v1")
    case None
    moreover from None have "\<not> list_ex (\<lambda>s. v1 \<in> set s) coarser"
      by (simp add: find_set_None_iff)
    ultimately show ?thesis by (simp add: p)
  next
    case (Some s)
    then have ex: "list_ex (\<lambda>s. v1 \<in> set s) coarser"
      by (metis find_set_None_iff option.distinct(1))
    have "same_set coarser v1 v2 = (v2 \<in> set s)"
      using Some by (auto simp: same_set_def)
    with Some ex show ?thesis by (simp add: p Cons.IH)
  qed
qed

lemma multi_member: "(C \<noteq> [] \<and> length C \<noteq> 1) = (1 < length C)"
  by (cases C) auto

lemma script_rate_communities_eq:
  "script_rate_communities coarser finer acc =
     (if lookups_succeed coarser finer
      then Inr (rate_communities coarser finer acc) else Inl TypeError)"
proof (induction finer arbitrary: acc)
  case Nil
  show ?case by (simp add: lookups_succeed_def)
next
  case (Cons C finer)
  have split: "lookups_succeed coarser (C # finer) \<longleftrightarrow>
      (1 < length C \<longrightarrow>
         list_all (\<lambda>(v1, v2). list_ex (\<lambda>s. v1 \<in> set s) coarser) (combinations2 C))
      \<and> lookups_succeed coarser finer"
    by (simp add: lookups_succeed_def)
  show ?case
  proof (cases "1 < length C")
    case True
    then have m: "C \<noteq> [] \<and> length C \<noteq> 1" by auto
    show ?thesis
      using True m
      by (simp add: Let_def script_count_pairs_eq Cons.IH split community_score_def)
  next
    case False
    then have m: "\<not> (C \<noteq> [] \<and> length C \<noteq> 1)" using multi_member[of C] by simp
    show ?thesis
      using False m by (auto simp: Let_def Cons.IH split)
  qed
qed

lemma combinations2_fst: "(v1, v2) \<in> set (combinations2 C) \<Longrightarrow> v1 \<in> set C"
  by (induction C) auto

lemma covered_lookups: "covered_by finer coarser \<Longrightarrow> lookups_succeed coarser finer"
  unfolding covered_by_def lookups_succeed_def list_all_iff
  by (auto dest: combinations2_fst)

section \<open>Projection onto the lexeme nodes\<close>

lemma fold_map_upd:
  "fold (\<lambda>res m. m(res \<mapsto> f res)) rs m0 = (\<lambda>r. if r \<in> set rs then Some (f r) else m0 r)"
  by (induction rs arbitrary: m0) (auto simp: fun_eq_iff)

lemma detect_at:
  "res \<in> set resolutions \<Longrightarrow>
   detect_communities_multiresolution louvain graph resolutions res
     = Some (lexeme_only (lexeme_nodes graph) (louvain graph res))"
  by (simp add: detect_communities_multiresolution_def fold_map_upd Let_def)

lemma pairwise_disjoint_nth:
  "pairwise_disjoint P \<longleftrightarrow> (\<forall>i j. i < j \<and> j < length P \<longrightarrow> P ! i \<inter> P ! j = {})"
  by (auto simp: pairwise_disjoint_def sorted_wrt_iff_nth_less)

lemma pairwise_disjoint_lexeme_only:
  assumes "pairwise_disjoint comms"
  shows "pairwise_disjoint (lexeme_only lexemes comms)"
proof -
  have "sorted_wrt (\<lambda>a b. a \<inter> b = {}) (filter (\<lambda>s. s \<inter> lexemes \<noteq> {}) comms)"
    using assms unfolding pairwise_disjoint_def by (rule sorted_wrt_filter)
  then have "sorted_wrt (\<lambda>a b. (a \<inter> lexemes) \<inter> (b \<inter> lexemes) = {})
               (filter (\<lambda>s. s \<inter> lexemes \<noteq> {}) comms)"
    by (rule sorted_wrt_mono_rel[rotated]) auto
  then show ?thesis
    by (simp add: pairwise_disjoint_def lexeme_only_def sorted_wrt_map)
qed

lemma lexeme_only_nonempty: "s \<in> set (lexeme_only lexemes comms) \<Longrightarrow> s \<noteq> {} \<and> s \<subseteq> lexemes"
  by (auto simp: lexeme_only_def)

lemma Union_lexeme_only: "\<Union> (set (lexeme_only lexemes comms)) = \<Union> (set comms) \<inter> lexemes"
  by (auto simp: lexeme_only_def)

text \<open>
  Claim C8. For every resolution of the sweep, if the sets returned by the clustering
  primitive are pairwise disjoint, then every set of the lexeme-only partition returned
  for that resolution is non-empty and any two of its sets are disjoint.
\<close>

theorem partition_validity:
  assumes "res \<in> set resolutions"
      and "pairwise_disjoint (louvain graph res)"
  shows "\<exists>P. detect_communities_multiresolution louvain graph resolutions res = Some P
           \<and> (\<forall>s \<in> set P. s \<noteq> {})
           \<and> (\<forall>i j. i < j \<and> j < length P \<longrightarrow> P ! i \<inter> P ! j = {})"
proof -
  let ?P = "lexeme_only (lexeme_nodes graph) (louvain graph res)"
  have "pairwise_disjoint ?P"
    using assms(2) by (rule pairwise_disjoint_lexeme_only)
  then have "\<forall>i j. i < j \<and> j < length ?P \<longrightarrow> ?P ! i \<inter> ?P ! j = {}"
    by (simp add: pairwise_disjoint_nth)
  moreover have "\<forall>s \<in> set ?P. s \<noteq> {}"
    using lexeme_only_nonempty by blast
  ultimately show ?thesis
    using detect_at[OF assms(1)] by blast
qed

text \<open>
  Claim C10. For every resolution of the sweep, if the clustering primitive returns
  pairwise disjoint sets whose union is the node set of the graph, then the union of
  the retained lexeme-only sets is the set of lexeme nodes and every lexeme node lies in
  exactly one retained set.
\<close>

theorem no_lexeme_dropped:
  assumes "res \<in> set resolutions"
      and "pairwise_disjoint (louvain graph res)"
      and "\<Union> (set (louvain graph res)) = fst ` set (nodes graph)"
  shows "\<exists>P. detect_communities_multiresolution louvain graph resolutions res = Some P
           \<and> \<Union> (set P) = lexeme_nodes graph
           \<and> (\<forall>x \<in> lexeme_nodes graph. \<exists>!i. i < length P \<and> x \<in> P ! i)"
proof -
  let ?L = "lexeme_nodes graph"
  let ?P = "lexeme_only ?L (louvain graph res)"
  have sub: "?L \<subseteq> fst ` set (nodes graph)"
    by (auto simp: lexeme_nodes_def)
  have U: "\<Union> (set ?P) = ?L"
    using sub assms(3) by (auto simp: Union_lexeme_only)
  have disj: "\<forall>i j. i < j \<and> j < length ?P \<longrightarrow> ?P ! i \<inter> ?P ! j = {}"
    using pairwise_disjoint_lexeme_only[OF assms(2)] by (simp add: pairwise_disjoint_nth)
  have "\<exists>!i. i < length ?P \<and> x \<in> ?P ! i" if x: "x \<in> ?L" for x
  proof (rule ex_ex1I)
    from x U obtain s where "s \<in> set ?P" "x \<in> s" by blast
    then show "\<exists>i. i < length ?P \<and> x \<in> ?P ! i"
      by (auto simp: in_set_conv_nth)
  next
    fix i j assume i: "i < length ?P \<and> x \<in> ?P ! i" and j: "j < length ?P \<and> x \<in> ?P ! j"
    show "i = j"
    proof (rule ccontr)
      assume "i \<noteq> j"
      then consider "i < j" | "j < i" by linarith
      then show False
      proof cases
        case 1
        with disj j have "?P ! i \<inter> ?P ! j = {}" by blast
        with i j show False by blast
      next
        case 2
        with disj i have "?P ! j \<inter> ?P ! i = {}" by blast
        with i j show False by blast
      qed
    qed
  qed
  with U show ?thesis
    using detect_at[OF assms(1)] by blast
qed

lemma toy_lex: "lexeme_nodes toy_graph = {''l1'', ''l2''}"
  by (auto simp: lexeme_nodes_def toy_graph_def)

theorem partition_validity_witness:
  "(0::nat) \<in> set [0, 1] \<and> pairwise_disjoint (toy_louvain toy_graph 0)
   \<and> detect_communities_multiresolution toy_louvain toy_graph [0, 1] 0
       = Some [{''l1''}, {''l2''}]"
  using partition_validity [of "0::nat" "[0, 1]" toy_louvain toy_graph]
  by (simp add: pairwise_disjoint_def toy_louvain_def detect_communities_multiresolution_def
      lexeme_only_def toy_lex)

theorem no_lexeme_dropped_witness:
  "(1::nat) \<in> set [0, 1] \<and> pairwise_disjoint (toy_louvain toy_graph 1)
   \<and> \<Union> (set (toy_louvain toy_graph 1)) = fst ` set (nodes toy_graph)
   \<and> detect_communities_multiresolution toy_louvain toy_graph [0, 1] 1
       = Some [{''l1''}, {''l2''}]
   \<and> \<Union> (set [{''l1''}, {''l2''}]) = lexeme_nodes toy_graph"
proof -
  have h1: "(1::nat) \<in> set [0, 1]" by simp
  have h2: "pairwise_disjoint (toy_louvain toy_graph 1)"
    by (simp add: pairwise_disjoint_def toy_louvain_def)
  have h3: "\<Union> (set (toy_louvain toy_graph 1)) = fst ` set (nodes toy_graph)"
    by (auto simp: toy_louvain_def toy_graph_def)
  have val: "detect_communities_multiresolution toy_louvain toy_graph [0, 1] 1
       = Some [{''l1''}, {''l2''}]"
    by (simp add: detect_at lexeme_only_def toy_lex toy_louvain_def)
  from no_lexeme_dropped [of "1::nat" "[0, 1]" toy_louvain toy_graph] h1 h2 h3 val
  have "\<Union> (set [{''l1''}, {''l2''}]) = lexeme_nodes toy_graph" by simp
  with h1 h2 h3 val show ?thesis by blast
qed

section \<open>The standalone script against the analyser\<close>

lemma tuples_mem:
  assumes "(a, b) \<in> set (tuples rs)"
  shows "a \<in> set rs \<and> b \<in> set rs"
proof -
  from assms obtain i where "i < length rs - 1" "a = rs ! i" "b = rs ! (i + 1)"
    by (auto simp: tuples_def)
  then show ?thesis by simp
qed

lemma detected_members:
  assumes "res \<in> set resolutions"
      and "\<Union> (set (louvain graph res)) = fst ` set (nodes graph)"
      and "map_option (map set) (communities res)
             = detect_communities_multiresolution louvain graph resolutions res"
  shows "\<exists>P. communities res = Some P \<and> \<Union> (set (map set P)) = lexeme_nodes graph"
proof -
  let ?L = "lexeme_nodes graph"
  from assms(3) detect_at[OF assms(1), of louvain graph]
  obtain P where P: "communities res = Some P"
      "map set P = lexeme_only ?L (louvain graph res)" by auto
  have "?L \<subseteq> fst ` set (nodes graph)" by (auto simp: lexeme_nodes_def)
  then have "\<Union> (set (lexeme_only ?L (louvain graph res))) = ?L"
    using assms(2) by (auto simp: Union_lexeme_only)
  then have "\<Union> (set (map set P)) = ?L" by (simp only: P(2))
  with P(1) show ?thesis by blast
qed

lemma same_members_covered:
  assumes "\<Union> (set (map set finer)) = \<Union> (set (map set coarser))"
  shows "covered_by finer coarser"
  unfolding covered_by_def list_all_iff list_ex_iff
proof (intro ballI)
  fix C v assume "C \<in> set finer" "v \<in> set C"
  then have "v \<in> \<Union> (set (map set finer))" by auto
  with assms have "v \<in> \<Union> (set (map set coarser))" by simp
  then show "\<exists>s \<in> set coarser. v \<in> set s" by auto
qed

text \<open>
  Claim C5. The dictionary \<open>communities\<close> holds, for every resolution of the sweep, the
  member lists of the lexeme-only sets that the detection returns for a graph whose
  clustering covers all nodes at that resolution; these are the partitions that the
  script computes for itself and the ones that the pipeline hands to the analyser. For
  every adjacent pair of resolutions the script's pass then returns what the
  analyser's pass returns: the same decision for the sentinel and the same sequence of
  scores. Both walk the communities of the partition at the larger resolution and look
  lexemes up in the partition at the smaller one; the script's unguarded test is never
  reached with \<open>None\<close>, since every lexeme is in some set of either partition.
\<close>

theorem script_agrees_with_analyser:
  assumes "\<forall>res \<in> set resolutions. \<Union> (set (louvain graph res)) = fst ` set (nodes graph)"
      and "\<forall>res \<in> set resolutions.
             map_option (map set) (communities res)
               = detect_communities_multiresolution louvain graph resolutions res"
      and "(lo_res, hi_res) \<in> set (tuples resolutions)"
  shows "\<exists>coarser finer. communities lo_res = Some coarser \<and> communities hi_res = Some finer
           \<and> analyser_pass communities (lo_res, hi_res)
               = Inr (calculate_hierarchy_coefficient coarser finer)
           \<and> script_pass communities (lo_res, hi_res)
               = analyser_pass communities (lo_res, hi_res)"
proof -
  from tuples_mem[OF assms(3)] have lo: "lo_res \<in> set resolutions"
    and hi: "hi_res \<in> set resolutions" by simp_all
  from detected_members[OF lo, of louvain graph communities] assms(1,2) lo
  obtain coarser where c: "communities lo_res = Some coarser"
      "\<Union> (set (map set coarser)) = lexeme_nodes graph" by blast
  from detected_members[OF hi, of louvain graph communities] assms(1,2) hi
  obtain finer where f: "communities hi_res = Some finer"
      "\<Union> (set (map set finer)) = lexeme_nodes graph" by blast
  have "covered_by finer coarser"
    by (rule same_members_covered) (simp only: c(2) f(2))
  then have "lookups_succeed coarser finer" by (rule covered_lookups)
  then have "script_pass communities (lo_res, hi_res)
               = analyser_pass communities (lo_res, hi_res)"
    using c(1) f(1)
    by (simp add: script_hierarchy_rating_def calculate_hierarchy_coefficient_def
        script_rate_communities_eq)
  moreover have "analyser_pass communities (lo_res, hi_res)
               = Inr (calculate_hierarchy_coefficient coarser finer)"
    using c(1) f(1) by simp
  ultimately show ?thesis using c(1) f(1) by blast
qed

lemma sweep_lex: "lexeme_nodes sweep_graph = {1, 2, 3, 4}"
  by (auto simp: lexeme_nodes_def sweep_graph_def)

theorem script_agrees_with_analyser_witness:
  "list_all (\<lambda>res. \<Union> (set (sweep_louvain sweep_graph res)) = fst ` set (nodes sweep_graph)) [0, 1]
   \<and> list_all (\<lambda>res. map_option (map set) (nested_partitions res)
               = detect_communities_multiresolution sweep_louvain sweep_graph [0, 1] res) [0, 1]
   \<and> tuples [0::nat, 1] = [(0, 1)]
   \<and> script_pass nested_partitions (0, 1) = analyser_pass nested_partitions (0, 1)
   \<and> analyser_pass nested_partitions (0, 1) = Inr (Ratings [1 / 3])"
proof -
  have a: "\<forall>res \<in> set [0::nat, 1].
             \<Union> (set (sweep_louvain sweep_graph res)) = fst ` set (nodes sweep_graph)"
    by (auto simp: sweep_louvain_def sweep_graph_def)
  have b: "\<forall>res \<in> set [0::nat, 1].
             map_option (map set) (nested_partitions res)
               = detect_communities_multiresolution sweep_louvain sweep_graph [0, 1] res"
    by (auto simp: detect_at nested_partitions_def sweep_louvain_def lexeme_only_def sweep_lex)
  have t: "tuples [0::nat, 1] = [(0, 1)]" by (simp add: tuples_def)
  have v: "analyser_pass nested_partitions (0, 1) = Inr (Ratings [1 / 3])"
    by (simp add: nested_partitions_def calculate_hierarchy_coefficient_def
        community_score_def same_set_def)
  from script_agrees_with_analyser [of "[0, 1]" sweep_louvain sweep_graph nested_partitions 0 1]
       a b t
  have "script_pass nested_partitions (0, 1) = analyser_pass nested_partitions (0, 1)"
    by auto
  with a b t v show ?thesis by (simp add: list_all_iff)
qed


section \<open>The columns of the hierarchy report\<close>

text \<open>
  Claim C9. The report has one row per adjacent resolution pair, keyed lower_upper, with
  the average (or the sentinel), then the community count at the upper resolution, then
  the count at the lower resolution. The code fills the third column \<open>ncomms_upper\<close>
  from \<open>resolutions[:-1]\<close> and the fourth \<open>ncomms_lower\<close> from \<open>resolutions[1:]\<close>: for
  the pair \<open>(0, 1)\<close> below, whose upper resolution 1 has two communities and whose lower
  resolution 0 has one, the row holds 1 in \<open>ncomms_upper\<close> and 2 in \<open>ncomms_lower\<close>.
\<close>

theorem report_counts_swapped:
  "analyze_hierarchy split_partitions [0, 1]
     = Inr [((0, 1), Str ''Every lexeme in its own community'')]
   \<and> create_hierarchy_dataframe [((0, 1), Str ''Every lexeme in its own community'')]
        split_partitions [0, 1]
     = Inr [\<lparr>Keys = Some (0, 1),
             Averages = Some (Text ''Every lexeme in its own community''),
             ncomms_upper = 1, ncomms_lower = 2\<rparr>]
   \<and> map_option length (split_partitions 1) = Some 2
   \<and> map_option length (split_partitions 0) = Some 1"
  by (simp add: analyze_hierarchy_def tuples_def split_partitions_def
      calculate_hierarchy_coefficient_def create_hierarchy_dataframe_def)

section \<open>Duplicate indexing\<close>

lemma of_char_digit:
  assumes "d < 10"
  shows "(of_char (digit_char d) :: nat) = 48 + d"
proof -
  from assms have "d \<in> {0, 1, 2, 3, 4, 5, 6, 7, 8, 9}" by auto
  then show ?thesis by (auto simp: digit_char_def)
qed

lemma digit_char_inj: "d < 10 \<Longrightarrow> d' < 10 \<Longrightarrow> digit_char d = digit_char d' \<Longrightarrow> d = d'"
  by (metis of_char_digit add_left_cancel)

lemma digit_char_not_sep:
  assumes "d < 10"
  shows "digit_char d \<noteq> CHR ''_''" "digit_char d \<noteq> CHR ''-''"
proof -
  have u: "(of_char (CHR ''_'') :: nat) = 95" and h: "(of_char (CHR ''-'') :: nat) = 45"
    by simp_all
  show "digit_char d \<noteq> CHR ''_''"
  proof
    assume "digit_char d = CHR ''_''"
    then have "(of_char (digit_char d) :: nat) = 95" using u by simp
    with of_char_digit[OF assms] have "48 + d = 95" by simp
    with assms show False by arith
  qed
  show "digit_char d \<noteq> CHR ''-''"
  proof
    assume "digit_char d = CHR ''-''"
    then have "(of_char (digit_char d) :: nat) = 45" using h by simp
    with of_char_digit[OF assms] have "48 + d = 45" by simp
    then show False by arith
  qed
qed

declare str_nat.simps [simp del]

lemma str_nat_digits: "c \<in> set (str_nat n) \<Longrightarrow> \<exists>d < 10. c = digit_char d"
proof (induction n rule: str_nat.induct)
  case (1 n)
  show ?case
  proof (cases "n < 10")
    case True
    with "1.prems" show ?thesis by (subst (asm) str_nat.simps) auto
  next
    case False
    with "1.prems" have "c \<in> set (str_nat (n div 10)) \<or> c = digit_char (n mod 10)"
      by (subst (asm) str_nat.simps) auto
    then show ?thesis
    proof
      assume "c \<in> set (str_nat (n div 10))"
      with "1.IH" False show ?thesis by simp
    next
      assume "c = digit_char (n mod 10)"
      moreover have "n mod 10 < 10" by simp
      ultimately show ?thesis by blast
    qed
  qed
qed

lemma str_nat_no_sep: "CHR ''_'' \<notin> set (str_nat n)" "CHR ''-'' \<notin> set (str_nat n)"
proof -
  show "CHR ''_'' \<notin> set (str_nat n)"
  proof
    assume "CHR ''_'' \<in> set (str_nat n)"
    then obtain d where "d < 10" "CHR ''_'' = digit_char d" using str_nat_digits by blast
    then show False using digit_char_not_sep(1)[of d] by simp
  qed
  show "CHR ''-'' \<notin> set (str_nat n)"
  proof
    assume "CHR ''-'' \<in> set (str_nat n)"
    then obtain d where "d < 10" "CHR ''-'' = digit_char d" using str_nat_digits by blast
    then show False using digit_char_not_sep(2)[of d] by simp
  qed
qed

lemma str_nat_nonempty: "str_nat n \<noteq> []"
  by (subst str_nat.simps) simp

lemma str_nat_length_one: "length (str_nat n) = 1 \<longleftrightarrow> n < 10"
proof (cases "n < 10")
  case True
  then show ?thesis by (subst str_nat.simps) simp
next
  case False
  have "length (str_nat n) = length (str_nat (n div 10)) + 1"
    using False by (subst str_nat.simps) simp
  moreover have "0 < length (str_nat (n div 10))"
    using str_nat_nonempty by simp
  ultimately show ?thesis using False by simp
qed

lemma str_nat_inj: "str_nat m = str_nat n \<Longrightarrow> m = n"
proof (induction m arbitrary: n rule: str_nat.induct)
  case (1 m)
  show ?case
  proof (cases "m < 10")
    case True
    then have "length (str_nat m) = 1" using str_nat_length_one[of m] by blast
    with "1.prems" have n: "n < 10" using str_nat_length_one[of n] by simp
    from True have "str_nat m = [digit_char m]" by (subst str_nat.simps) simp
    moreover from n have "str_nat n = [digit_char n]" by (subst str_nat.simps) simp
    ultimately show ?thesis using "1.prems" True n digit_char_inj by simp
  next
    case False
    then have "length (str_nat m) \<noteq> 1" using str_nat_length_one[of m] by blast
    with "1.prems" have n: "\<not> n < 10" using str_nat_length_one[of n] by simp
    from False have m_eq: "str_nat m = str_nat (m div 10) @ [digit_char (m mod 10)]"
      by (subst str_nat.simps) simp
    from n have n_eq: "str_nat n = str_nat (n div 10) @ [digit_char (n mod 10)]"
      by (subst str_nat.simps) simp
    from "1.prems" m_eq n_eq have a: "str_nat (m div 10) = str_nat (n div 10)"
      and b: "digit_char (m mod 10) = digit_char (n mod 10)" by simp_all
    from "1.IH"[OF False a] have "m div 10 = n div 10" .
    moreover from b have "m mod 10 = n mod 10" by (intro digit_char_inj) simp_all
    ultimately show ?thesis by (metis div_mult_mod_eq)
  qed
qed

lemma takeWhile_sep: "c \<notin> set u \<Longrightarrow> takeWhile (\<lambda>x. x \<noteq> c) (u @ c # r) = u"
  by (induction u) auto

lemma suffix_split:
  assumes "CHR ''_'' \<notin> set u" "CHR ''_'' \<notin> set v" "a @ ''_'' @ u = b @ ''_'' @ v"
  shows "a = b \<and> u = v"
proof -
  from assms(3) have "rev (a @ ''_'' @ u) = rev (b @ ''_'' @ v)" by simp
  then have r: "rev u @ CHR ''_'' # rev a = rev v @ CHR ''_'' # rev b" by simp
  have "takeWhile (\<lambda>c. c \<noteq> CHR ''_'') (rev u @ CHR ''_'' # rev a) = rev u"
    using assms(1) by (intro takeWhile_sep) simp
  moreover have "takeWhile (\<lambda>c. c \<noteq> CHR ''_'') (rev v @ CHR ''_'' # rev b) = rev v"
    using assms(2) by (intro takeWhile_sep) simp
  ultimately have "rev u = rev v" using r by simp
  then have "u = v" by simp
  with assms(3) show ?thesis by simp
qed

lemma strip_ordinal_suffix:
  "strip_ordinal (e @ ''_'' @ str_nat k) = e"
proof -
  have "dropWhile (\<lambda>c. c \<noteq> CHR ''_'') (rev (str_nat k) @ CHR ''_'' # rev e) = CHR ''_'' # rev e"
  proof (rule trans[OF dropWhile_append2])
    show "\<And>x. x \<in> set (rev (str_nat k)) \<Longrightarrow> x \<noteq> CHR ''_''"
      using str_nat_no_sep(1)[of k] by auto
    show "dropWhile (\<lambda>c. c \<noteq> CHR ''_'') (CHR ''_'' # rev e) = CHR ''_'' # rev e" by simp
  qed
  then show ?thesis by (simp add: strip_ordinal_def)
qed

lemma index_loop_length: "length (index_loop seen xs) = length xs"
  by (induction xs arbitrary: seen) (simp_all add: Let_def)

lemma index_loop_nth:
  "i < length xs \<Longrightarrow>
   index_loop seen xs ! i =
     (let n = seen (xs ! i) + count_list (take i xs) (xs ! i)
      in if 0 < n then xs ! i @ ''_'' @ str_nat n else xs ! i)"
proof (induction xs arbitrary: seen i)
  case Nil
  then show ?case by simp
next
  case (Cons x xs)
  define seen' where "seen' = seen(x := seen x + 1)"
  have step: "index_loop seen (x # xs)
      = (if 1 < seen' x then x @ ''_'' @ str_nat (seen' x - 1) else x) # index_loop seen' xs"
    by (simp add: seen'_def Let_def)
  show ?case
  proof (cases i)
    case 0
    have "seen' x = seen x + 1" by (simp add: seen'_def)
    then show ?thesis unfolding step using 0 by (simp add: Let_def)
  next
    case (Suc j)
    with Cons.prems have j: "j < length xs" by simp
    have n: "seen' (xs ! j) + count_list (take j xs) (xs ! j)
           = seen ((x # xs) ! i) + count_list (take i (x # xs)) ((x # xs) ! i)"
      by (simp add: Suc seen'_def)
    have "index_loop seen (x # xs) ! i = index_loop seen' xs ! j"
      unfolding step by (simp add: Suc)
    also have "\<dots> = (let n = seen' (xs ! j) + count_list (take j xs) (xs ! j)
                       in if 0 < n then xs ! j @ ''_'' @ str_nat n else xs ! j)"
      by (rule Cons.IH[OF j])
    also have "\<dots> = (let n = seen ((x # xs) ! i) + count_list (take i (x # xs)) ((x # xs) ! i)
                       in if 0 < n then (x # xs) ! i @ ''_'' @ str_nat n else (x # xs) ! i)"
      unfolding n by (simp add: Suc)
    finally show ?thesis .
  qed
qed

lemma indexed_exps_nth:
  "i < length xs \<Longrightarrow>
   indexed_exps xs ! i =
     (if xs ! i \<in> set (take i xs)
      then xs ! i @ ''_'' @ str_nat (count_list (take i xs) (xs ! i)) else xs ! i)"
  by (simp add: indexed_exps_def index_loop_nth Let_def count_list_0_iff)

lemma count_take_less:
  assumes "i < length xs"
  shows "count_list (take i xs) (xs ! i) < count_list xs (xs ! i)"
proof -
  have "xs = take i xs @ xs ! i # drop (Suc i) xs"
    using assms by (simp add: id_take_nth_drop)
  then have "count_list xs (xs ! i)
      = count_list (take i xs) (xs ! i) + count_list (xs ! i # drop (Suc i) xs) (xs ! i)"
    by (metis count_list_append)
  then show ?thesis by simp
qed

lemma count_take_mono:
  assumes "i < j" "j < length xs" "xs ! i = xs ! j"
  shows "count_list (take i xs) (xs ! i) < count_list (take j xs) (xs ! j)"
proof -
  have "i < length (take j xs)" using assms by simp
  from count_take_less[OF this] have "count_list (take i (take j xs)) (take j xs ! i)
      < count_list (take j xs) (take j xs ! i)" .
  moreover have "take i (take j xs) = take i xs" using assms by (simp add: min_def)
  moreover have "take j xs ! i = xs ! i" using assms by simp
  ultimately show ?thesis using assms(3) by simp
qed

lemma collision_freeD:
  assumes "collision_free xs" "e \<in> set xs" "0 < k" "k < count_list xs e"
  shows "e @ ''_'' @ str_nat k \<notin> set xs"
  using assms unfolding collision_free_def list_all_iff by auto

lemma indexed_exps_distinct:
  assumes "collision_free xs"
  shows "distinct (indexed_exps xs)"
proof -
  let ?n = "\<lambda>i. count_list (take i xs) (xs ! i)"
  have len: "length (indexed_exps xs) = length xs"
    by (simp add: indexed_exps_def index_loop_length)
  have first_bare: "xs ! j @ ''_'' @ str_nat (?n j) \<noteq> xs ! i"
    if "i < length xs" "j < length xs" "xs ! j \<in> set (take j xs)" for i j
  proof -
    have "?n j \<noteq> 0" using that(3) by (simp add: count_list_0_iff)
    then have "0 < ?n j" by simp
    moreover have "?n j < count_list xs (xs ! j)" by (rule count_take_less[OF that(2)])
    moreover have "xs ! j \<in> set xs" using that(2) by simp
    ultimately have "xs ! j @ ''_'' @ str_nat (?n j) \<notin> set xs"
      using collision_freeD[OF assms] by blast
    moreover have "xs ! i \<in> set xs" using that(1) by simp
    ultimately show ?thesis by metis
  qed
  have neq: "indexed_exps xs ! i \<noteq> indexed_exps xs ! j" if ij: "i < j" "j < length xs" for i j
  proof -
    from ij have i: "i < length xs" by simp
    have in_take: "xs ! i \<in> set (take j xs)"
      using ij by (auto simp: in_set_conv_nth intro!: exI[of _ i])
    show ?thesis
    proof (cases "xs ! i \<in> set (take i xs)")
      case True
      note Ti = this
      show ?thesis
      proof (cases "xs ! j \<in> set (take j xs)")
        case True
        show ?thesis
        proof
          assume "indexed_exps xs ! i = indexed_exps xs ! j"
          then have "xs ! i @ ''_'' @ str_nat (?n i) = xs ! j @ ''_'' @ str_nat (?n j)"
            using Ti True i ij(2) by (simp add: indexed_exps_nth)
          then have "xs ! i = xs ! j \<and> str_nat (?n i) = str_nat (?n j)"
            by (intro suffix_split str_nat_no_sep)
          then have "xs ! i = xs ! j" "?n i = ?n j" using str_nat_inj by blast+
          with count_take_mono[OF ij] show False by simp
        qed
      next
        case False
        then show ?thesis
          using Ti i ij(2) first_bare[OF ij(2) i Ti] by (simp add: indexed_exps_nth)
      qed
    next
      case False
      note Fi = this
      show ?thesis
      proof (cases "xs ! j \<in> set (take j xs)")
        case True
        then show ?thesis
          using Fi i ij(2) first_bare[OF i ij(2) True] by (simp add: indexed_exps_nth)
      next
        case False
        with in_take have "xs ! i \<noteq> xs ! j" by metis
        then show ?thesis using Fi False i ij(2) by (simp add: indexed_exps_nth)
      qed
    qed
  qed
  show ?thesis
  proof (subst distinct_conv_nth, intro allI impI)
    fix i j assume a: "i < length (indexed_exps xs)" "j < length (indexed_exps xs)" "i \<noteq> j"
    then consider "i < j" | "j < i" by linarith
    then show "indexed_exps xs ! i \<noteq> indexed_exps xs ! j"
    proof cases
      case 1 then show ?thesis using neq[of i j] a len by simp
    next
      case 2 then show ?thesis using neq[of j i] a len by metis
    qed
  qed
qed

lemma unsuffixed_indexed: "unsuffixed xs (indexed_exps xs) = xs"
proof (rule nth_equalityI)
  show "length (unsuffixed xs (indexed_exps xs)) = length xs"
    by (simp add: unsuffixed_def indexed_exps_def index_loop_length)
next
  fix i assume "i < length (unsuffixed xs (indexed_exps xs))"
  then have i: "i < length xs"
    by (simp add: unsuffixed_def indexed_exps_def index_loop_length)
  then have "unsuffixed xs (indexed_exps xs) ! i
      = (if indexed_exps xs ! i = xs ! i then indexed_exps xs ! i
         else strip_ordinal (indexed_exps xs ! i))"
    by (simp add: unsuffixed_def indexed_exps_def index_loop_length)
  also have "\<dots> = xs ! i"
    using i by (simp add: indexed_exps_nth strip_ordinal_suffix[simplified])
  finally show "unsuffixed xs (indexed_exps xs) ! i = xs ! i" .
qed

text \<open>
  Claim C7, as amended. For every lexeme whose tag list is collision free, the indexed
  list has no duplicates: the first occurrence of a tag stays bare, the occurrence after
  \<open>n\<close> earlier ones gets the suffix \<open>_n\<close>, and stripping the suffix from the changed
  entries gives back the multiset of the original tags.
\<close>

theorem disambiguation_unique:
  assumes "(idx, exps_list) \<in> set lexeme_dict"
      and "collision_free exps_list"
  shows "(idx, indexed_exps exps_list) \<in> set (index_duplicate_exponents lexeme_dict)
       \<and> distinct (indexed_exps exps_list)
       \<and> length (indexed_exps exps_list) = length exps_list
       \<and> (\<forall>i < length exps_list.
             indexed_exps exps_list ! i =
               (if exps_list ! i \<in> set (take i exps_list)
                then exps_list ! i @ ''_''
                       @ str_nat (count_list (take i exps_list) (exps_list ! i))
                else exps_list ! i))
       \<and> mset (unsuffixed exps_list (indexed_exps exps_list)) = mset exps_list"
proof (intro conjI allI impI)
  show "(idx, indexed_exps exps_list) \<in> set (index_duplicate_exponents lexeme_dict)"
    using assms(1) by (force simp: index_duplicate_exponents_def)
  show "distinct (indexed_exps exps_list)"
    by (rule indexed_exps_distinct[OF assms(2)])
  show "length (indexed_exps exps_list) = length exps_list"
    by (simp add: indexed_exps_def index_loop_length)
  show "mset (unsuffixed exps_list (indexed_exps exps_list)) = mset exps_list"
    by (simp add: unsuffixed_indexed)
next
  fix i assume "i < length exps_list"
  then show "indexed_exps exps_list ! i =
               (if exps_list ! i \<in> set (take i exps_list)
                then exps_list ! i @ ''_''
                       @ str_nat (count_list (take i exps_list) (exps_list ! i))
                else exps_list ! i)"
    by (rule indexed_exps_nth)
qed

lemma str_nat_small:
  "str_nat (Suc 0) = ''1''" "str_nat 2 = ''2''" "str_nat (Suc (Suc 0)) = ''2''"
  by (subst str_nat.simps, simp add: digit_char_def)+

theorem disambiguation_unique_witness:
  "(1::nat, [''#a#-X'', ''#b#-X'', ''#a#-X'', ''#a#-X'']) \<in> set [(1, [''#a#-X'', ''#b#-X'', ''#a#-X'', ''#a#-X''])]
   \<and> collision_free [''#a#-X'', ''#b#-X'', ''#a#-X'', ''#a#-X'']
   \<and> indexed_exps [''#a#-X'', ''#b#-X'', ''#a#-X'', ''#a#-X'']
        = [''#a#-X'', ''#b#-X'', ''#a#-X_1'', ''#a#-X_2'']
   \<and> distinct (indexed_exps [''#a#-X'', ''#b#-X'', ''#a#-X'', ''#a#-X''])"
proof -
  have c: "collision_free [''#a#-X'', ''#b#-X'', ''#a#-X'', ''#a#-X'']"
    by (simp add: collision_free_def upt_rec[of 1] upt_rec[of 2] str_nat_small)
  have v: "indexed_exps [''#a#-X'', ''#b#-X'', ''#a#-X'', ''#a#-X'']
        = [''#a#-X'', ''#b#-X'', ''#a#-X_1'', ''#a#-X_2'']"
    by (simp add: indexed_exps_def str_nat_small)
  from disambiguation_unique [of "1::nat" "[''#a#-X'', ''#b#-X'', ''#a#-X'', ''#a#-X'']"
         "[(1, [''#a#-X'', ''#b#-X'', ''#a#-X'', ''#a#-X''])]"] c
  have "distinct (indexed_exps [''#a#-X'', ''#b#-X'', ''#a#-X'', ''#a#-X''])" by simp
  with c v show ?thesis by simp
qed

text \<open>
  Without the condition the claim fails: with the cells \<open>X\<close> (exponent \<open>a\<close> twice) and
  \<open>X_1\<close> (exponent \<open>a\<close>), the second tag of \<open>X\<close> is indexed to the tag of \<open>X_1\<close>.
\<close>

theorem disambiguation_counterexample:
  "index_duplicate_exponents (build_lexeme_dict suffix_table)
     = [(1, [''#a#-X'', ''#a#-X_1'', ''#a#-X_1''])]
   \<and> \<not> distinct [''#a#-X'', ''#a#-X_1'', ''#a#-X_1'']"
  by (simp add: suffix_table_def build_lexeme_dict_def drop_stem_def cell_step_def
      generate_triphones_def process_cell_def index_duplicate_exponents_def indexed_exps_def
      str_nat_small)

section \<open>Failing weight lookups\<close>

lemma weight_loop_ok_step:
  assumes "edge_ok weights (lexeme, tag)"
  shows "\<exists>cell row n w. edge_cell tag = Some cell \<and> weights lexeme = Some row
           \<and> row cell = Some n \<and> n \<noteq> Float 0 \<and> py_div 1 n = Inr w
           \<and> weight_loop weights ((lexeme, tag) # edges) last_cell =
               (case weight_loop weights edges (Some cell) of
                  Inl e \<Rightarrow> Inl e
                | Inr rest \<Rightarrow> Inr ((lexeme, tag, w) # rest))"
proof -
  from assms obtain cell where c: "edge_cell tag = Some cell" by auto
  with assms obtain row where r: "weights lexeme = Some row"
    by (auto split: option.splits)
  with assms c obtain n where n: "row cell = Some n" "n \<noteq> Float 0"
    by (auto split: option.splits if_splits)
  then obtain w where w: "py_div 1 n = Inr w"
    by (cases n) auto
  show ?thesis using c r n w by simp
qed

lemma weight_loop_abort:
  assumes "list_all (edge_ok weights) pre"
      and "lookup_error weights (lexeme, tag) = Some e"
  shows "weight_loop weights (pre @ (lexeme, tag) # post) last_cell
           = Inl (BuildError e (lexeme, tag) (edge_cell tag))"
  using assms(1)
proof (induction pre arbitrary: last_cell)
  case Nil
  from assms(2) obtain cell where c: "edge_cell tag = Some cell"
    by (auto split: option.splits)
  show ?case
  proof (cases "weights lexeme")
    case None
    with assms(2) c show ?thesis by simp
  next
    case (Some row)
    note r = this
    show ?thesis
    proof (cases "row cell")
      case None
      with assms(2) c r show ?thesis by simp
    next
      case (Some n)
      with assms(2) c r have "n = Float 0" "e = ZeroDivisionError"
        by (auto split: if_splits)
      with c r Some show ?thesis by simp
    qed
  qed
next
  case (Cons p pre)
  obtain l t where p: "p = (l, t)" by (cases p)
  from Cons.prems have ok: "edge_ok weights (l, t)" and rest: "list_all (edge_ok weights) pre"
    by (simp_all add: p)
  from weight_loop_ok_step[OF ok, of "pre @ (lexeme, tag) # post" last_cell]
  obtain cell w where "weight_loop weights ((l, t) # pre @ (lexeme, tag) # post) last_cell =
               (case weight_loop weights (pre @ (lexeme, tag) # post) (Some cell) of
                  Inl e \<Rightarrow> Inl e
                | Inr rest \<Rightarrow> Inr ((l, t, w) # rest))" by blast
  then show ?case using Cons.IH[OF rest, of "Some cell"] by (simp add: p)
qed

lemma weight_loop_returned:
  assumes "weight_loop weights edges last_cell = Inr es"
  shows "map (\<lambda>(l, t, w). (l, t)) es = edges
       \<and> list_all (edge_ok weights) edges
       \<and> (\<forall>(lexeme, tag, w) \<in> set es.
            \<exists>cell row n. edge_cell tag = Some cell \<and> weights lexeme = Some row
              \<and> row cell = Some n \<and> n \<noteq> Float 0 \<and> py_div 1 n = Inr w)"
  using assms
proof (induction edges arbitrary: last_cell es)
  case Nil
  then show ?case by auto
next
  case (Cons p edges)
  obtain l t where p: "p = (l, t)" by (cases p)
  from Cons.prems obtain cell where c: "edge_cell t = Some cell"
    by (auto simp: p split: option.splits)
  from Cons.prems c obtain row where r: "weights l = Some row"
    by (auto simp: p split: option.splits)
  from Cons.prems c r obtain n where n: "row cell = Some n"
    by (auto simp: p split: option.splits)
  from Cons.prems c r n obtain w where w: "py_div 1 n = Inr w"
    by (auto simp: p split: sum.splits)
  then have nz: "n \<noteq> Float 0" by (cases n) (auto split: if_splits)
  from Cons.prems c r n w obtain rest where
    rest: "weight_loop weights edges (Some cell) = Inr rest" and es: "es = (l, t, w) # rest"
    by (auto simp: p split: sum.splits)
  from Cons.IH[OF rest] c r n w nz show ?case
    by (auto simp: p es)
qed

text \<open>
  What the loop of \<open>calculate_edge_weights\<close> does with a failing lookup, once the table
  of counts is built. When it reaches an edge whose lexeme or recovered cell is not a
  key of the table, or whose count is zero, it raises \<open>KeyError\<close> or
  \<open>ZeroDivisionError\<close> and logs that edge and the recovered cell; with such an edge
  anywhere in the list no edge list is returned. A returned edge list has one weight per
  edge, the quotient of 1 by the count tabled for the lexeme and the recovered cell.
\<close>

lemma lookup_failure_raises:
  assumes W: "weights_dict df = Inr weights"
  shows
   "(dict_to_tuple_list indexed_dict = pre @ (lexeme, tag) # post
        \<and> list_all (edge_ok weights) pre
        \<and> lookup_error weights (lexeme, tag) = Some e
      \<longrightarrow> calculate_edge_weights df indexed_dict
            = Inl (BuildError e (lexeme, tag) (edge_cell tag))
          \<and> edge_cell tag \<noteq> None)
  \<and> (list_ex (\<lambda>edge. lookup_error weights edge \<noteq> None) (dict_to_tuple_list indexed_dict)
      \<longrightarrow> (\<exists>err. calculate_edge_weights df indexed_dict = Inl err))
  \<and> (\<forall>es. calculate_edge_weights df indexed_dict = Inr es
      \<longrightarrow> map (\<lambda>(l, t, w). (l, t)) es = dict_to_tuple_list indexed_dict
        \<and> (\<forall>(lexeme, tag, w) \<in> set es.
              \<exists>cell row n. edge_cell tag = Some cell \<and> weights lexeme = Some row
                \<and> row cell = Some n \<and> n \<noteq> Float 0 \<and> py_div 1 n = Inr w))"
proof (intro conjI allI impI)
  assume a: "dict_to_tuple_list indexed_dict = pre @ (lexeme, tag) # post
        \<and> list_all (edge_ok weights) pre
        \<and> lookup_error weights (lexeme, tag) = Some e"
  then show "calculate_edge_weights df indexed_dict
            = Inl (BuildError e (lexeme, tag) (edge_cell tag))"
    using weight_loop_abort[of weights pre lexeme tag e post None]
    by (simp add: calculate_edge_weights_def W)
  from a show "edge_cell tag \<noteq> None" by (auto split: option.splits)
next
  assume ex: "list_ex (\<lambda>edge. lookup_error weights edge \<noteq> None) (dict_to_tuple_list indexed_dict)"
  show "\<exists>err. calculate_edge_weights df indexed_dict = Inl err"
  proof (cases "calculate_edge_weights df indexed_dict")
    case (Inl err)
    then show ?thesis by blast
  next
    case (Inr es)
    then have "weight_loop weights (dict_to_tuple_list indexed_dict) None = Inr es"
      by (simp add: calculate_edge_weights_def W)
    from weight_loop_returned[OF this]
    have "list_all (edge_ok weights) (dict_to_tuple_list indexed_dict)" by blast
    with ex show ?thesis by (auto simp: list_all_iff list_ex_iff)
  qed
next
  fix es assume "calculate_edge_weights df indexed_dict = Inr es"
  then have r: "weight_loop weights (dict_to_tuple_list indexed_dict) None = Inr es"
    by (simp add: calculate_edge_weights_def W)
  from weight_loop_returned[OF r]
  show "map (\<lambda>(l, t, w). (l, t)) es = dict_to_tuple_list indexed_dict" by blast
  from weight_loop_returned[OF r]
  show "\<forall>(lexeme, tag, w) \<in> set es.
              \<exists>cell row n. edge_cell tag = Some cell \<and> weights lexeme = Some row
                \<and> row cell = Some n \<and> n \<noteq> Float 0 \<and> py_div 1 n = Inr w" by blast
qed

lemmas builder_defs =
  graph_edges_def build_lexeme_dict_def drop_stem_def cell_step_def generate_triphones_def
  process_cell_def index_duplicate_exponents_def indexed_exps_def calculate_edge_weights_def
  dict_to_tuple_list_def weights_dict_def count_table_def edge_cell_def slice_def

text \<open>
  Claim C4. A lookup that references a lexeme and cell without a count must abort the
  build, and no weight that is not a finite number may reach the returned graph. The
  build of the table below returns its edge list, with the weight NaN on the edge of
  lexeme 2: the tag \<open>#a#-A_B\<close> comes from the cell \<open>A_B\<close>, where lexeme 2 has one
  exponent, but the cell recovered from it is \<open>A\<close> (the label is cut at its own
  underscore), where lexeme 2 has no list; the count read is NaN and so is the weight.
\<close>

theorem underscore_label_nan_weight:
  "graph_edges underscore_table = Inr [(1, ''#x#-A'', Float 1), (2, ''#a#-A_B'', NaN)]
   \<and> cell_at underscore_table 2 ''A_B'' = Some [''a'']
   \<and> edge_cell ''#a#-A_B'' = Some ''A''
   \<and> cell_at underscore_table 2 ''A'' = None"
  by (simp add: builder_defs underscore_table_def)


section \<open>The edge weights of a built graph\<close>

lemma split_no_sep: "sep \<notin> set s \<Longrightarrow> split sep s = [s]"
  by (induction s) auto

lemma split_at_sep: "sep \<notin> set a \<Longrightarrow> split sep (a @ sep # b) = a # split sep b"
  by (induction a) auto

lemma edge_cell_bare:
  assumes "CHR ''-'' \<notin> set t" "CHR ''-'' \<notin> set col" "CHR ''_'' \<notin> set col"
  shows "edge_cell (t @ ''-'' @ col) = Some col"
  using assms by (simp add: edge_cell_def split_at_sep split_no_sep)

lemma edge_cell_suffixed:
  assumes "CHR ''-'' \<notin> set t" "CHR ''-'' \<notin> set col" "CHR ''_'' \<notin> set col"
  shows "edge_cell (t @ ''-'' @ col @ ''_'' @ str_nat k) = Some col"
proof -
  have "CHR ''-'' \<notin> set (col @ ''_'' @ str_nat k)"
    using assms(2) str_nat_no_sep(2)[of k] by simp
  then have "split CHR ''-'' (t @ CHR ''-'' # (col @ ''_'' @ str_nat k))
           = [t, col @ ''_'' @ str_nat k]"
    using assms(1) by (simp add: split_at_sep split_no_sep del: append.simps)
  moreover have "hd (split CHR ''_'' (col @ CHR ''_'' # str_nat k)) = col"
    using assms(3) by (simp add: split_at_sep)
  ultimately show ?thesis by (simp add: edge_cell_def)
qed

lemma triphone_chars:
  assumes "t \<in> set (generate_triphones e)"
  shows "set t \<subseteq> insert CHR ''#'' (set e)"
proof (cases "length (''#'' @ e @ ''#'') \<le> 3")
  case True
  with assms have "t = ''#'' @ e @ ''#''" by (simp add: generate_triphones_def)
  then show ?thesis by auto
next
  case False
  then have "generate_triphones e =
      map (\<lambda>i. take 3 (drop i (''#'' @ e @ ''#''))) [0..<length (''#'' @ e @ ''#'') - 2]"
    by (intro generate_triphones_long) simp
  with assms obtain i where "t = take 3 (drop i (''#'' @ e @ ''#''))" by auto
  then have "set t \<subseteq> set (''#'' @ e @ ''#'')"
    by (metis set_take_subset set_drop_subset subset_trans)
  then show ?thesis by auto
qed

lemma generate_triphones_nonempty: "generate_triphones e \<noteq> []"
  by (auto simp: generate_triphones_def triphone_loop_eq Let_def)

lemma dict_extend_entry:
  "(k', ws') \<in> set (dict_extend k vs d) \<Longrightarrow>
     (k', ws') \<in> set d \<or> (k' = k \<and> (ws' = vs \<or> (\<exists>ws. (k, ws) \<in> set d \<and> ws' = ws @ vs)))"
  by (induction d) (auto split: if_splits)

lemma dict_extend_mem:
  assumes "(k', ws') \<in> set (dict_extend k vs d)" "v \<in> set ws'"
  shows "(\<exists>ws. (k', ws) \<in> set d \<and> v \<in> set ws) \<or> (k' = k \<and> v \<in> set vs)"
  using dict_extend_entry[OF assms(1)] assms(2) by auto

lemma cell_step_sourced:
  assumes "all_sourced df d" "idx \<in> set (index df)" "col \<in> set (columns df)"
  shows "all_sourced df (cell_step df idx col d)"
proof (cases "cell_at df idx col")
  case None
  with assms(1) show ?thesis by (simp add: cell_step_def)
next
  case (Some cell)
  let ?tagged = "process_cell (concat (map generate_triphones cell)) col"
  have new: "sourced df idx tag" if "tag \<in> set ?tagged" for tag
    using that assms(2,3) Some unfolding sourced_def process_cell_def by auto
  show ?thesis
    unfolding all_sourced_def
  proof (intro ballI, clarify)
    fix l tags tag
    assume "(l, tags) \<in> set (cell_step df idx col d)" "tag \<in> set tags"
    then have "(l, tags) \<in> set (dict_extend idx ?tagged d)"
      by (simp add: cell_step_def Some Let_def)
    from dict_extend_mem[OF this \<open>tag \<in> set tags\<close>]
    show "sourced df l tag"
      using assms(1) new unfolding all_sourced_def by auto
  qed
qed

lemma fold_invariant:
  assumes "P d" "\<And>x d. x \<in> set xs \<Longrightarrow> P d \<Longrightarrow> P (f x d)"
  shows "P (fold f xs d)"
  using assms by (induction xs arbitrary: d) auto

lemma build_lexeme_dict_sourced: "all_sourced (drop_stem df) (build_lexeme_dict df)"
  unfolding build_lexeme_dict_def Let_def
proof (rule fold_invariant[where P = "all_sourced (drop_stem df)"])
  show "all_sourced (drop_stem df) []" by (simp add: all_sourced_def)
next
  fix idx d
  assume idx: "idx \<in> set (index (drop_stem df))" and d: "all_sourced (drop_stem df) d"
  show "all_sourced (drop_stem df)
          (fold (\<lambda>col d. cell_step (drop_stem df) idx col d) (columns (drop_stem df)) d)"
  proof (rule fold_invariant[where P = "all_sourced (drop_stem df)", OF d])
    fix col d'
    assume "col \<in> set (columns (drop_stem df))" "all_sourced (drop_stem df) d'"
    then show "all_sourced (drop_stem df) (cell_step (drop_stem df) idx col d')"
      using idx by (intro cell_step_sourced)
  qed
qed

lemma indexed_exps_mem:
  assumes "tag' \<in> set (indexed_exps tags)"
  shows "\<exists>tag \<in> set tags. tag' = tag \<or> (\<exists>k. tag' = tag @ ''_'' @ str_nat k)"
proof -
  have len: "length (indexed_exps tags) = length tags"
    by (simp add: indexed_exps_def index_loop_length)
  from assms obtain i where i: "i < length tags" "tag' = indexed_exps tags ! i"
    using len by (metis in_set_conv_nth)
  then have "tag' = tags ! i \<or> (\<exists>k. tag' = tags ! i @ ''_'' @ str_nat k)"
    by (auto simp: indexed_exps_nth)
  with i(1) show ?thesis by (metis nth_mem)
qed

lemma edge_mem:
  assumes "(l, tag') \<in> set (dict_to_tuple_list (index_duplicate_exponents d))"
  shows "\<exists>tags tag. (l, tags) \<in> set d \<and> tag \<in> set tags
           \<and> (tag' = tag \<or> (\<exists>k. tag' = tag @ ''_'' @ str_nat k))"
proof -
  from assms obtain tags where "(l, tags) \<in> set d" "tag' \<in> set (indexed_exps tags)"
    by (auto simp: dict_to_tuple_list_def index_duplicate_exponents_def)
  with indexed_exps_mem show ?thesis by blast
qed


lemma drop_stem_fields [simp]:
  "index (drop_stem df) = index df" "cell_at (drop_stem df) = cell_at df"
  by (simp_all add: drop_stem_def)

lemma plain_labelsD:
  assumes "plain_labels df" "col \<in> set (columns (drop_stem df))"
  shows "CHR ''-'' \<notin> set col" "CHR ''_'' \<notin> set col"
    and "l \<in> set (index df) \<Longrightarrow> cell_at df l col = Some cell \<Longrightarrow> e \<in> set cell
           \<Longrightarrow> CHR ''-'' \<notin> set e"
proof -
  from assms show "CHR ''-'' \<notin> set col" "CHR ''_'' \<notin> set col"
    by (auto simp: plain_labels_def list_all_iff)
  assume l: "l \<in> set (index df)" and c: "cell_at df l col = Some cell" and e: "e \<in> set cell"
  from assms(1) l assms(2)
  have "case cell_at df l col of None \<Rightarrow> True
        | Some cell \<Rightarrow> list_all (\<lambda>exponent. CHR ''-'' \<notin> set exponent) cell"
    unfolding plain_labels_def list_all_iff by blast
  with c e show "CHR ''-'' \<notin> set e" by (simp add: list_all_iff)
qed

lemma edge_facts:
  assumes "plain_labels df"
      and "(l, tag') \<in> set (dict_to_tuple_list (index_duplicate_exponents (build_lexeme_dict df)))"
  shows "\<exists>col cell. col \<in> set (columns (drop_stem df)) \<and> l \<in> set (index df)
           \<and> cell_at df l col = Some cell \<and> cell \<noteq> []
           \<and> originates tag' col cell \<and> edge_cell tag' = Some col"
proof -
  from edge_mem[OF assms(2)] obtain tags tag where
    t: "(l, tags) \<in> set (build_lexeme_dict df)" "tag \<in> set tags"
       "tag' = tag \<or> (\<exists>k. tag' = tag @ ''_'' @ str_nat k)" by blast
  from build_lexeme_dict_sourced[of df] t(1,2) have "sourced (drop_stem df) l tag"
    unfolding all_sourced_def by blast
  then obtain col cell e tr where
    s: "col \<in> set (columns (drop_stem df))" "l \<in> set (index df)" "cell_at df l col = Some cell"
       "e \<in> set cell" "tr \<in> set (generate_triphones e)" "tag = tr @ ''-'' @ col"
    unfolding sourced_def by auto
  note lab = plain_labelsD[OF assms(1) s(1)]
  have "CHR ''-'' \<notin> set e" using lab(3)[OF s(2,3,4)] .
  with triphone_chars[OF s(5)] have tr: "CHR ''-'' \<notin> set tr" by auto
  have cellne: "cell \<noteq> []" using s(4) by auto
  from t(3) show ?thesis
  proof
    assume eq: "tag' = tag"
    have "originates tag' col cell"
      unfolding originates_def using s(4,5,6) eq by blast
    moreover have "edge_cell tag' = Some col"
      unfolding eq s(6) by (rule edge_cell_bare[OF tr lab(1,2)])
    ultimately show ?thesis using s(1,2,3) cellne by blast
  next
    assume "\<exists>k. tag' = tag @ ''_'' @ str_nat k"
    then obtain k where eq: "tag' = tr @ ''-'' @ col @ ''_'' @ str_nat k"
      using s(6) by auto
    have "originates tag' col cell"
      unfolding originates_def using s(4,5) eq by blast
    moreover have "edge_cell tag' = Some col"
      unfolding eq by (rule edge_cell_suffixed[OF tr lab(1,2)])
    ultimately show ?thesis using s(1,2,3) cellne by blast
  qed
qed

lemma weights_lookup:
  assumes "l \<in> set (index df)" "col \<in> set (columns (drop_stem df))" "cell_at df l col = Some cell"
  shows "\<exists>row. count_table (drop_stem df) l = Some row
           \<and> row col = Some (Float (real (length cell)))"
proof -
  have a: "list_ex (\<lambda>c. cell_at df l c \<noteq> None) (columns (drop_stem df))"
    using assms(2,3) by (auto simp: list_ex_iff)
  have b: "list_ex (\<lambda>l. cell_at df l col \<noteq> None) (index df)"
    using assms(1,3) by (auto simp: list_ex_iff)
  show ?thesis
    using assms a b by (simp add: count_table_def)
qed

lemma weights_dict_plain:
  assumes "''lexeme'' \<notin> set (columns (drop_stem df))" "''value'' \<notin> set (columns (drop_stem df))"
  shows "weights_dict df = Inr (count_table (drop_stem df))"
  using assms by (simp add: weights_dict_def Let_def)

lemma weight_loop_all_ok:
  "list_all (edge_ok weights) edges \<Longrightarrow> \<exists>es. weight_loop weights edges last_cell = Inr es"
proof (induction edges arbitrary: last_cell)
  case Nil
  show ?case by simp
next
  case (Cons p edges)
  obtain l t where p: "p = (l, t)" by (cases p)
  from Cons.prems have ok: "edge_ok weights (l, t)" and rest: "list_all (edge_ok weights) edges"
    by (simp_all add: p)
  from weight_loop_ok_step[OF ok, of edges last_cell]
  obtain cell w where step: "weight_loop weights ((l, t) # edges) last_cell =
               (case weight_loop weights edges (Some cell) of
                  Inl e \<Rightarrow> Inl e
                | Inr rest \<Rightarrow> Inr ((l, t, w) # rest))" by blast
  from Cons.IH[OF rest, of "Some cell"] obtain es where
    "weight_loop weights edges (Some cell) = Inr es" by blast
  with step show ?case by (simp add: p)
qed

text \<open>
  Claim C2, as amended. For a table that is a mapping (no lexeme and no label twice),
  with plain labels none of which is \<open>lexeme\<close> or \<open>value\<close>, the build returns an edge
  list,
  with one weighted edge per pair of a lexeme and one of its disambiguated tags; the
  weight of every edge is 1 divided by the number of exponents that the table lists
  (repetitions counted) for that lexeme in the cell the tag originates from, which is
  the cell that \<open>calculate_edge_weights\<close> recovers from the tag; every weight is a
  number greater than 0 and at most 1.
\<close>

theorem edge_weight_reciprocal:
  assumes "distinct (index df)" and "distinct (columns df)"
      and "''lexeme'' \<notin> set (columns (drop_stem df))"
      and "''value'' \<notin> set (columns (drop_stem df))"
      and plain: "plain_labels df"
  shows "\<exists>es. graph_edges df = Inr es
       \<and> map (\<lambda>(l, t, w). (l, t)) es
           = dict_to_tuple_list (index_duplicate_exponents (build_lexeme_dict df))
       \<and> (\<forall>(lexeme, tag, w) \<in> set es.
            \<exists>col cell. col \<in> set (columns (drop_stem df)) \<and> lexeme \<in> set (index df)
              \<and> cell_at df lexeme col = Some cell
              \<and> originates tag col cell
              \<and> w = Float (1 / real (length cell))
              \<and> 0 < 1 / real (length cell) \<and> 1 / real (length cell) \<le> 1)"
proof -
  let ?edges = "dict_to_tuple_list (index_duplicate_exponents (build_lexeme_dict df))"
  let ?W = "count_table (drop_stem df)"
  have ok: "list_all (edge_ok ?W) ?edges"
    unfolding list_all_iff
  proof (intro ballI)
    fix p assume pm: "p \<in> set ?edges"
    obtain l t where p: "p = (l, t)" by (cases p)
    from edge_facts[OF plain pm[unfolded p]] obtain col cell where
      f: "col \<in> set (columns (drop_stem df))" "l \<in> set (index df)"
         "cell_at df l col = Some cell" "cell \<noteq> []" "edge_cell t = Some col" by blast
    from weights_lookup[OF f(2,1,3)] obtain row where
      "?W l = Some row" "row col = Some (Float (real (length cell)))" by blast
    with f(4,5) show "edge_ok ?W p" by (simp add: p)
  qed
  from weight_loop_all_ok[OF ok, of None] obtain es where
    es: "weight_loop ?W ?edges None = Inr es" by blast
  then have g: "graph_edges df = Inr es"
    using weights_dict_plain[OF assms(3,4)]
    by (simp add: graph_edges_def calculate_edge_weights_def Let_def)
  note ret = weight_loop_returned[OF es]
  have m: "map (\<lambda>(l, t, w). (l, t)) es = ?edges" using ret by blast
  have "\<forall>(lexeme, tag, w) \<in> set es.
            \<exists>col cell. col \<in> set (columns (drop_stem df)) \<and> lexeme \<in> set (index df)
              \<and> cell_at df lexeme col = Some cell
              \<and> originates tag col cell
              \<and> w = Float (1 / real (length cell))
              \<and> 0 < 1 / real (length cell) \<and> 1 / real (length cell) \<le> 1"
  proof (intro ballI)
    fix x assume xm: "x \<in> set es"
    obtain l t w where x: "x = (l, t, w)" by (cases x)
    from xm have "(\<lambda>(l, t, w). (l, t)) x \<in> set (map (\<lambda>(l, t, w). (l, t)) es)" by simp
    then have "(l, t) \<in> set ?edges" unfolding m by (simp add: x)
    from edge_facts[OF plain this] obtain col cell where
      f: "col \<in> set (columns (drop_stem df))" "l \<in> set (index df)"
         "cell_at df l col = Some cell" "cell \<noteq> []" "originates t col cell"
         "edge_cell t = Some col" by blast
    from weights_lookup[OF f(2,1,3)] obtain row where
      r: "?W l = Some row" "row col = Some (Float (real (length cell)))" by blast
    from ret xm x obtain cell' row' n where
      "edge_cell t = Some cell'" "?W l = Some row'" "row' cell' = Some n" "py_div 1 n = Inr w"
      by blast
    with f(6) r have "py_div 1 (Float (real (length cell))) = Inr w" by simp
    with f(4) have w: "w = Float (1 / real (length cell))" by simp
    have pos: "0 < length cell" using f(4) by simp
    then have "Suc 0 \<le> length cell" by (cases cell) simp_all
    then have "1 \<le> real (length cell)" by simp
    with pos have "0 < 1 / real (length cell)" "1 / real (length cell) \<le> 1" by simp_all
    with f(1,2,3,5) w
    show "case x of (lexeme, tag, w) \<Rightarrow>
            \<exists>col cell. col \<in> set (columns (drop_stem df)) \<and> lexeme \<in> set (index df)
              \<and> cell_at df lexeme col = Some cell
              \<and> originates tag col cell
              \<and> w = Float (1 / real (length cell))
              \<and> 0 < 1 / real (length cell) \<and> 1 / real (length cell) \<le> 1"
      unfolding x by blast
  qed
  with g m show ?thesis by blast
qed

theorem edge_weight_reciprocal_witness:
  "distinct (index scenario_b) \<and> distinct (columns scenario_b)
   \<and> ''lexeme'' \<notin> set (columns (drop_stem scenario_b))
   \<and> ''value'' \<notin> set (columns (drop_stem scenario_b))
   \<and> plain_labels scenario_b
   \<and> graph_edges scenario_b
       = Inr [(1, ''#a#-NOM.SG'', Float 1), (2, ''#a#-NOM.SG'', Float (1 / 2)),
              (2, ''#b#-NOM.SG'', Float (1 / 2))]
   \<and> cell_at scenario_b 2 ''NOM.SG'' = Some [''a'', ''b'']"
proof -
  have d: "distinct (index scenario_b)" "distinct (columns scenario_b)"
    by (simp_all add: scenario_b_def)
  have r: "''lexeme'' \<notin> set (columns (drop_stem scenario_b))"
          "''value'' \<notin> set (columns (drop_stem scenario_b))"
    by (simp_all add: scenario_b_def drop_stem_def)
  have p: "plain_labels scenario_b"
    by (simp add: plain_labels_def scenario_b_def drop_stem_def)
  have v: "graph_edges scenario_b
       = Inr [(1, ''#a#-NOM.SG'', Float 1), (2, ''#a#-NOM.SG'', Float (1 / 2)),
              (2, ''#b#-NOM.SG'', Float (1 / 2))]"
    by (simp add: builder_defs scenario_b_def)
  from edge_weight_reciprocal [OF d r p] v
  have "\<exists>es. graph_edges scenario_b = Inr es" by blast
  with d r p v show ?thesis by (simp add: scenario_b_def)
qed

text \<open>A table with a cell named \<open>lexeme\<close> is refused before any weight is computed.\<close>

lemma reserved_label_refused: "graph_edges reserved_table = Inl (TableError ValueError)"
  by (simp add: builder_defs reserved_table_def)

text \<open>
  The divisor is the length of the list and not the number of distinct exponents: a
  cell listing the exponent \<open>a\<close> twice gives both edges the weight 1/2.
\<close>

theorem repeated_exponent_counterexample:
  "graph_edges repeated_table
     = Inr [(1, ''#a#-NOM'', Float (1 / 2)), (1, ''#a#-NOM_1'', Float (1 / 2))]
   \<and> cell_at repeated_table 1 ''NOM'' = Some [''a'', ''a'']
   \<and> card (set [''a'', ''a'']) = 1
   \<and> Float (1 / 2) \<noteq> Float (1 / real (card (set [''a'', ''a''])))"
  by (simp add: builder_defs repeated_table_def str_nat_small)

end
